theory Spec2Isabelle
  imports Main "HOL-Library.Char_ord" "HOL-Library.List_Lexorder" "HOL-Library.AList"
    "HOL-Library.Multiset"
begin

section \<open>Strings as the program uses them\<close>

text \<open>
  A Python string is a sequence of code points; the embedding covers the code points
  below 256, one \<open>char\<close> each. The whitespace of \<^verbatim>\<open>str.strip\<close>,
  \<^verbatim>\<open>str.split\<close> and of the regular-expression class \<^verbatim>\<open>\s\<close> is
  \<^verbatim>\<open>str.isspace\<close> on that range: 0x09..0x0D, 0x1C..0x1F, the blank, 0x85 and
  0xA0. The digits of \<^verbatim>\<open>\d\<close> are 0..9, and \<^verbatim>\<open>str.lower\<close> maps A..Z and the
  capital letters 0xC0..0xDE (0xD7, the multiplication sign, apart) to the letter
  32 places further.
\<close>

definition is_space :: "char \<Rightarrow> bool" where
  "is_space ch = (ch \<in> set [CHR 0x09, CHR 0x0A, CHR 0x0B, CHR 0x0C, CHR 0x0D,
                             CHR 0x1C, CHR 0x1D, CHR 0x1E, CHR 0x1F, CHR 0x20,
                             CHR 0x85, CHR 0xA0])"

definition is_digit :: "char \<Rightarrow> bool" where
  "is_digit ch = (ch \<in> set ''0123456789'')"

definition py_strip :: "string \<Rightarrow> string" where
  "py_strip s = rev (dropWhile is_space (rev (dropWhile is_space s)))"

definition lower_char :: "char \<Rightarrow> char" where
  "lower_char ch =
     (if (CHR ''A'' \<le> ch \<and> ch \<le> CHR ''Z'') \<or>
         (CHR 0xC0 \<le> ch \<and> ch \<le> CHR 0xDE \<and> ch \<noteq> CHR 0xD7)
      then char_of (of_char ch + (32::nat)) else ch)"

definition py_lower :: "string \<Rightarrow> string" where
  "py_lower s = map lower_char s"

fun startswith :: "string \<Rightarrow> string \<Rightarrow> bool" where
  "startswith s [] = True"
| "startswith [] (p # ps) = False"
| "startswith (c # cs) (p # ps) = (c = p \<and> startswith cs ps)"

definition endswith :: "string \<Rightarrow> string \<Rightarrow> bool" where
  "endswith s p = startswith (rev s) (rev p)"

text \<open>\<^verbatim>\<open>sub in s\<close>: \<open>sub\<close> occurs in \<open>s\<close> as a contiguous substring.\<close>

fun contains :: "string \<Rightarrow> string \<Rightarrow> bool" where
  "contains [] sub = (sub = [])"
| "contains (c # cs) sub = (startswith (c # cs) sub \<or> contains cs sub)"

text \<open>
  \<^verbatim>\<open>s.replace(old, new)\<close> for a non-empty \<open>old\<close>: the occurrences are replaced from
  left to right without overlap. The counter is the number of characters of the
  occurrence just replaced that are still to be skipped.
\<close>

fun replace_from :: "nat \<Rightarrow> string \<Rightarrow> string \<Rightarrow> string \<Rightarrow> string" where
  "replace_from k old new [] = []"
| "replace_from (Suc k) old new (c # cs) = replace_from k old new cs"
| "replace_from 0 old new (c # cs) =
     (if startswith (c # cs) old then new @ replace_from (length old - 1) old new cs
      else c # replace_from 0 old new cs)"

definition py_replace :: "string \<Rightarrow> string \<Rightarrow> string \<Rightarrow> string" where
  "py_replace s old new = replace_from 0 old new s"

text \<open>\<^verbatim>\<open>s.split()\<close>: the maximal runs of non-whitespace characters.\<close>

fun split_ws :: "string \<Rightarrow> string \<Rightarrow> string list" where
  "split_ws cur [] = (if cur = [] then [] else [cur])"
| "split_ws cur (c # cs) =
     (if is_space c then (if cur = [] then split_ws [] cs else cur # split_ws [] cs)
      else split_ws (cur @ [c]) cs)"

definition py_split :: "string \<Rightarrow> string list" where
  "py_split s = split_ws [] s"

fun py_join :: "string \<Rightarrow> string list \<Rightarrow> string" where
  "py_join sep [] = []"
| "py_join sep [x] = x"
| "py_join sep (x # y # ys) = x @ sep @ py_join sep (y # ys)"

section \<open>Selector splitting\<close>

text \<open>
  The loop of \<^verbatim>\<open>split_selectors\<close> carries \<^verbatim>\<open>result\<close>, \<^verbatim>\<open>current\<close>, \<^verbatim>\<open>depth\<close>,
  \<^verbatim>\<open>in_string\<close> and \<^verbatim>\<open>quote_char\<close>; the test \<^verbatim>\<open>i == 0 or selector[i-1] != '\\'\<close>
  reads the previous character, kept here as \<open>prev\<close> (\<open>None\<close> at index 0).
\<close>

record split_state =
  result :: "string list"
  current :: string
  depth :: int
  in_string :: bool
  quote_char :: "char option"
  prev :: "char option"

definition split_init :: split_state where
  "split_init = \<lparr>result = [], current = [], depth = 0, in_string = False,
                 quote_char = None, prev = None\<rparr>"

definition flush :: "split_state \<Rightarrow> split_state" where
  "flush st =
     (if current st \<noteq> [] then
        (let sel = py_strip (current st) in
         (if sel \<noteq> [] then st\<lparr>result := result st @ [sel], current := []\<rparr>
          else st\<lparr>current := []\<rparr>))
      else st)"

definition quote_step :: "char \<Rightarrow> split_state \<Rightarrow> split_state" where
  "quote_step ch st =
     (if (ch = CHR 0x22 \<or> ch = CHR 0x27) \<and> prev st \<noteq> Some (CHR 0x5C) then
        (if \<not> in_string st then st\<lparr>in_string := True, quote_char := Some ch\<rparr>
         else if Some ch = quote_char st then st\<lparr>in_string := False, quote_char := None\<rparr>
         else st)
      else st)"

definition split_step :: "char \<Rightarrow> split_state \<Rightarrow> split_state" where
  "split_step ch st0 =
     (let st = quote_step ch st0 in
      (if in_string st then st\<lparr>current := current st @ [ch], prev := Some ch\<rparr>
       else if ch \<in> set ''([{'' then
         st\<lparr>depth := depth st + 1, current := current st @ [ch], prev := Some ch\<rparr>
       else if ch \<in> set '')]}'' then
         st\<lparr>depth := depth st - 1, current := current st @ [ch], prev := Some ch\<rparr>
       else if ch = CHR '','' \<and> depth st = 0 then (flush st)\<lparr>prev := Some ch\<rparr>
       else st\<lparr>current := current st @ [ch], prev := Some ch\<rparr>))"

definition split_selectors :: "string \<Rightarrow> string list" where
  "split_selectors selector = result (flush (fold split_step selector split_init))"

text \<open>
  What splitting a selector clause means, stated apart from the buffers of the
  loop. A character is escaped when an odd number of backslashes stands right
  before it; \<open>escaped\<close> says so for the character being read. A string literal
  begins at a quote that is not escaped and ends at the next such quote of the same
  kind. \<open>quote_after q escaped c\<close> is the quote of the literal that is open once the
  character \<open>c\<close> has been read, \<open>q\<close> being the one open before it. The depth is the
  number of opening brackets less the number of closing brackets read so far
  outside string literals, of whatever kind. \<open>top_level_commas\<close> marks the commas
  that stand at depth 0 outside a string literal, \<open>cut_at\<close> cuts the text at the
  marked characters, and \<open>split_spec\<close> trims the pieces and drops the empty ones.
\<close>

definition quote_after :: "char option \<Rightarrow> bool \<Rightarrow> char \<Rightarrow> char option" where
  "quote_after q escaped c =
     (if (c = CHR 0x22 \<or> c = CHR 0x27) \<and> \<not> escaped
      then (case q of None \<Rightarrow> Some c | Some opened \<Rightarrow> if c = opened then None else q)
      else q)"

fun top_level_commas :: "int \<Rightarrow> char option \<Rightarrow> bool \<Rightarrow> string \<Rightarrow> bool list" where
  "top_level_commas d q escaped [] = []"
| "top_level_commas d q escaped (c # cs) =
     (if quote_after q escaped c \<noteq> None
      then False # top_level_commas d (quote_after q escaped c) (c = CHR 0x5C \<and> \<not> escaped) cs
      else if c \<in> set ''([{''
      then False # top_level_commas (d + 1) None (c = CHR 0x5C \<and> \<not> escaped) cs
      else if c \<in> set '')]}''
      then False # top_level_commas (d - 1) None (c = CHR 0x5C \<and> \<not> escaped) cs
      else (c = CHR '','' \<and> d = 0) # top_level_commas d None (c = CHR 0x5C \<and> \<not> escaped) cs)"

fun cut_at :: "bool list \<Rightarrow> string \<Rightarrow> string list" where
  "cut_at ms [] = [[]]"
| "cut_at [] (c # cs) = [c # cs]"
| "cut_at (True # ms) (c # cs) = [] # cut_at ms cs"
| "cut_at (False # ms) (c # cs) = (case cut_at ms cs of [] \<Rightarrow> [[c]] | p # ps \<Rightarrow> (c # p) # ps)"

definition split_spec :: "string \<Rightarrow> string list" where
  "split_spec s =
     filter (\<lambda>x. x \<noteq> []) (map py_strip (cut_at (top_level_commas 0 None False s) s))"

text \<open>
  A text in which no quote that opens or closes a string literal stands right
  after an escaped backslash. \<open>q\<close> and \<open>escaped\<close> are as above, and \<open>after\<close> says that
  the character before the one being read is a backslash: a character that is not
  escaped and stands after a backslash stands after an escaped backslash.
\<close>

fun plain_quotes :: "char option \<Rightarrow> bool \<Rightarrow> bool \<Rightarrow> string \<Rightarrow> bool" where
  "plain_quotes q escaped after [] = True"
| "plain_quotes q escaped after (c # cs) =
     (\<not> (after \<and> \<not> escaped \<and> quote_after q False c \<noteq> q) \<and>
      plain_quotes (quote_after q escaped c) (c = CHR 0x5C \<and> \<not> escaped) (c = CHR 0x5C) cs)"

text \<open>
  For the proofs about the loop: \<open>onto_first\<close> puts the buffer of the loop in front
  of the first piece, and \<open>scanner_ok\<close> says that the loop holds a quote exactly
  when it is inside a string.
\<close>

fun onto_first :: "string \<Rightarrow> string list \<Rightarrow> string list" where
  "onto_first cur [] = [cur]"
| "onto_first cur (p # ps) = (cur @ p) # ps"

definition scanner_ok :: "split_state \<Rightarrow> bool" where
  "scanner_ok st = (in_string st = (quote_char st \<noteq> None))"

text \<open>
  The selector clause \<^verbatim>\<open>[x="a\\"], [y="b],c"]\<close>, two attribute selectors: the first
  string literal ends with an escaped backslash, the second holds a comma.
\<close>

definition escaped_backslash_clause :: string where
  "escaped_backslash_clause =
     ''[x='' @ [CHR 0x22] @ ''a'' @ [CHR 0x5C, CHR 0x5C] @ [CHR 0x22] @ ''], [y='' @
     [CHR 0x22] @ ''b],c'' @ [CHR 0x22] @ '']''"


section \<open>The parsed stylesheet\<close>

text \<open>
  The tokenizer and parser (tinycss2) are outside the program. The compiler reads
  from a parsed node only its type, its lower-cased keyword and the texts that the
  serializer renders for its parts, so a node carries exactly those:
  \<^item> a declaration of \<^verbatim>\<open>parse_declaration_list\<close> has \<^verbatim>\<open>lower_name\<close>, the text
    \<^verbatim>\<open>serialize(decl.value)\<close> and the flag \<^verbatim>\<open>important\<close>; an entry of the list can
    also be an error, or a node of another type, which the compiler passes over;
  \<^item> a qualified rule has the text \<^verbatim>\<open>serialize(rule.prelude)\<close> and the declaration
    list of its content;
  \<^item> an at-rule has \<^verbatim>\<open>lower_at_keyword\<close>, the text \<^verbatim>\<open>serialize(prelude)\<close>, the nodes
    that \<^verbatim>\<open>parse_stylesheet\<close> yields for its content (none when the content is
    missing or empty) and the text \<^verbatim>\<open>serialize([node])\<close> of the whole at-rule;
  \<^item> a parse error.
\<close>

datatype decl = Declaration string string bool | DeclError | DeclOther

datatype node =
    QualifiedRule string "decl list"
  | AtRule string string "node list" string
  | ParseError

section \<open>Ordered dictionaries\<close>

text \<open>
  An \<^verbatim>\<open>OrderedDict\<close> is the list of its items in insertion order. \<open>od_set\<close> is
  \<^verbatim>\<open>d[k] = v\<close>: the value of an existing key is replaced where it stands, a new key
  goes to the end. \<open>od_get\<close> is \<^verbatim>\<open>d[k]\<close> for a key that may be absent, \<open>od_has\<close> is
  \<^verbatim>\<open>k in d\<close>, \<open>od_update\<close> is \<^verbatim>\<open>d.update(items)\<close> and \<open>od_of\<close> builds a dictionary
  from items inserted one after the other.
\<close>

definition od_set :: "'k \<Rightarrow> 'v \<Rightarrow> ('k \<times> 'v) list \<Rightarrow> ('k \<times> 'v) list" where
  "od_set k v d = AList.update k v d"

definition od_get :: "('k \<times> 'v) list \<Rightarrow> 'k \<Rightarrow> 'v option" where
  "od_get d k = map_of d k"

definition od_has :: "('k \<times> 'v) list \<Rightarrow> 'k \<Rightarrow> bool" where
  "od_has d k = (k \<in> set (map fst d))"

definition od_update :: "('k \<times> 'v) list \<Rightarrow> ('k \<times> 'v) list \<Rightarrow> ('k \<times> 'v) list" where
  "od_update d items = fold (\<lambda>kv acc. od_set (fst kv) (snd kv) acc) items d"

definition od_of :: "('k \<times> 'v) list \<Rightarrow> ('k \<times> 'v) list" where
  "od_of items = od_update [] items"

section \<open>Rules and the compiler's store\<close>

record css_rule =
  selector :: string
  properties :: "(string \<times> string) list"

type_synonym scope = "(string \<times> css_rule) list"

definition CSSRule :: "string \<Rightarrow> css_rule" where
  "CSSRule sel = \<lparr>selector = py_strip sel, properties = []\<rparr>"

definition add_property :: "string \<Rightarrow> string \<Rightarrow> css_rule \<Rightarrow> css_rule" where
  "add_property prop val r =
     r\<lparr>properties := od_set (py_strip prop) (py_strip val) (properties r)\<rparr>"

definition merge_with :: "css_rule \<Rightarrow> css_rule \<Rightarrow> css_rule" where
  "merge_with other_rule r =
     r\<lparr>properties := od_update (properties r) (properties other_rule)\<rparr>"

definition to_css :: "string \<Rightarrow> css_rule \<Rightarrow> string" where
  "to_css indent r =
     (if properties r = [] then []
      else py_join [CHR 0x0A]
             ([selector r @ '' {''] @
              map (\<lambda>pv. indent @ fst pv @ '': '' @ snd pv @ '';'') (properties r) @
              [''}'']))"

record stats =
  stat_rules_parsed :: nat
  stat_selectors_split :: nat
  stat_properties_merged :: nat
  stat_at_rules :: nat
  stat_media_queries :: nat
  stat_parse_errors :: nat

text \<open>
  An entry of \<^verbatim>\<open>self.at_rules\<close> is a dictionary with the keys \<^verbatim>\<open>keyword\<close> and
  \<^verbatim>\<open>content\<close>, and \<^verbatim>\<open>name\<close> for keyframes only.
\<close>

record at_entry =
  keyword :: string
  name :: "string option"
  content :: string

record compiler =
  rules :: scope
  at_rules :: "at_entry list"
  media_queries :: "(string \<times> scope) list"
  stats :: stats

definition init_stats :: stats where
  "init_stats = \<lparr>stat_rules_parsed = 0, stat_selectors_split = 0, stat_properties_merged = 0,
                  stat_at_rules = 0, stat_media_queries = 0, stat_parse_errors = 0\<rparr>"

definition init_compiler :: compiler where
  "init_compiler = \<lparr>rules = [], at_rules = [], media_queries = [], stats = init_stats\<rparr>"

section \<open>Processing the nodes\<close>

definition serialize_tokens :: "string \<Rightarrow> string" where
  "serialize_tokens serialized = py_replace serialized ''/**/'' []"

definition declaration_value :: "string \<Rightarrow> bool \<Rightarrow> string" where
  "declaration_value serialized important =
     py_strip (serialize_tokens serialized) @ (if important then '' !important'' else [])"

fun declaration_step ::
  "decl \<Rightarrow> (string \<times> string) list \<times> stats \<Rightarrow> (string \<times> string) list \<times> stats" where
  "declaration_step (Declaration prop serialized important) (props, st) =
     (od_set prop (declaration_value serialized important) props, st)"
| "declaration_step DeclError (props, st) =
     (props, st\<lparr>stat_parse_errors := stat_parse_errors st + 1\<rparr>)"
| "declaration_step DeclOther (props, st) = (props, st)"

definition parse_declaration_block ::
  "decl list \<Rightarrow> stats \<Rightarrow> (string \<times> string) list \<times> stats" where
  "parse_declaration_block decls st = fold declaration_step decls ([], st)"

text \<open>
  The body of the loop over \<^verbatim>\<open>selectors\<close> in \<^verbatim>\<open>process_qualified_rule\<close>, on the
  target dictionary and the statistics. \<open>od_modify\<close> is a method call on the object
  stored under a key.
\<close>

definition od_modify :: "'k \<Rightarrow> ('v \<Rightarrow> 'v) \<Rightarrow> ('k \<times> 'v) list \<Rightarrow> ('k \<times> 'v) list" where
  "od_modify k f d = map (\<lambda>kv. if fst kv = k then (fst kv, f (snd kv)) else kv) d"

definition property_step :: "string \<Rightarrow> string \<times> string \<Rightarrow> scope \<times> stats \<Rightarrow> scope \<times> stats" where
  "property_step sel pv acc =
     (od_modify sel (add_property (fst pv) (snd pv)) (fst acc),
      (snd acc)\<lparr>stat_properties_merged := stat_properties_merged (snd acc) + 1\<rparr>)"

definition selector_step ::
  "(string \<times> string) list \<Rightarrow> string \<Rightarrow> scope \<times> stats \<Rightarrow> scope \<times> stats" where
  "selector_step props sel0 acc =
     (let sel = py_strip sel0 in
      if sel = [] then acc
      else
        (let st = (snd acc)\<lparr>stat_selectors_split := stat_selectors_split (snd acc) + 1\<rparr>;
             target = (if od_has (fst acc) sel then fst acc
                       else od_set sel (CSSRule sel) (fst acc))
         in fold (property_step sel) props (target, st)))"

text \<open>
  \<^verbatim>\<open>process_qualified_rule\<close>. The target is the dictionary of the media condition when
  \<^verbatim>\<open>media_condition\<close> is true as a Python value, that is neither \<^verbatim>\<open>None\<close> nor the
  empty string, and \<^verbatim>\<open>self.rules\<close> otherwise; \<^verbatim>\<open>setdefault\<close> enters a new condition
  with an empty dictionary before the selectors are looked at.
\<close>

definition process_qualified_rule ::
  "string \<Rightarrow> decl list \<Rightarrow> string option \<Rightarrow> compiler \<Rightarrow> compiler" where
  "process_qualified_rule prelude decls media_condition c =
     (let st1 = (stats c)\<lparr>stat_rules_parsed := stat_rules_parsed (stats c) + 1\<rparr>;
          sel = py_strip (serialize_tokens prelude)
      in if sel = [] then c\<lparr>stats := st1\<rparr>
         else
           (let parsed = parse_declaration_block decls st1 in
            if fst parsed = [] then c\<lparr>stats := snd parsed\<rparr>
            else
              (let selectors = split_selectors sel in
               (case media_condition of
                  None \<Rightarrow>
                    (let done = fold (selector_step (fst parsed)) selectors (rules c, snd parsed)
                     in c\<lparr>rules := fst done, stats := snd done\<rparr>)
                | Some m \<Rightarrow>
                    if m = [] then
                      (let done = fold (selector_step (fst parsed)) selectors (rules c, snd parsed)
                       in c\<lparr>rules := fst done, stats := snd done\<rparr>)
                    else
                      (let target = (case od_get (media_queries c) m of None \<Rightarrow> [] | Some t \<Rightarrow> t);
                           done = fold (selector_step (fst parsed)) selectors (target, snd parsed)
                       in c\<lparr>media_queries := od_set m (fst done) (media_queries c),
                            stats := snd done\<rparr>)))))"

text \<open>
  The keyframes branch of \<^verbatim>\<open>process_at_rule\<close> looks for the first entry with the
  keyword \<^verbatim>\<open>keyframes\<close> and the same name; an entry found (a non-empty dictionary,
  true as a Python value) gets the new content, where it stands.
\<close>

definition is_keyframe_named :: "string \<Rightarrow> at_entry \<Rightarrow> bool" where
  "is_keyframe_named nm e = (keyword e = ''keyframes'' \<and> name e = Some nm)"

fun replace_first_content :: "string \<Rightarrow> string \<Rightarrow> at_entry list \<Rightarrow> at_entry list" where
  "replace_first_content nm txt [] = []"
| "replace_first_content nm txt (e # es) =
     (if is_keyframe_named nm e then e\<lparr>content := txt\<rparr> # es
      else e # replace_first_content nm txt es)"

definition media_child :: "string \<Rightarrow> node \<Rightarrow> compiler \<Rightarrow> compiler" where
  "media_child media_condition child c =
     (case child of
        QualifiedRule prelude decls \<Rightarrow> process_qualified_rule prelude decls (Some media_condition) c
      | AtRule kw prelude children txt \<Rightarrow> c
      | ParseError \<Rightarrow> c)"

definition process_at_rule ::
  "string \<Rightarrow> string \<Rightarrow> node list \<Rightarrow> string \<Rightarrow> compiler \<Rightarrow> compiler" where
  "process_at_rule kw prelude children txt c =
     (if kw = ''media'' then
        (let c1 = c\<lparr>stats := (stats c)\<lparr>stat_media_queries := stat_media_queries (stats c) + 1\<rparr>\<rparr>;
             media_condition = py_strip (serialize_tokens prelude)
         in fold (media_child media_condition) children c1)
      else if kw = ''keyframes'' then
        (let c1 = c\<lparr>stats := (stats c)\<lparr>stat_at_rules := stat_at_rules (stats c) + 1\<rparr>\<rparr>;
             keyframe_name = py_strip (serialize_tokens prelude)
         in if list_ex (is_keyframe_named keyframe_name) (at_rules c1)
            then c1\<lparr>at_rules := replace_first_content keyframe_name txt (at_rules c1)\<rparr>
            else c1\<lparr>at_rules := at_rules c1 @
                       [\<lparr>keyword = kw, name = Some keyframe_name, content = txt\<rparr>]\<rparr>)
      else
        (let c1 = c\<lparr>stats := (stats c)\<lparr>stat_at_rules := stat_at_rules (stats c) + 1\<rparr>\<rparr>
         in c1\<lparr>at_rules := at_rules c1 @ [\<lparr>keyword = kw, name = None, content = txt\<rparr>]\<rparr>))"

definition process_node :: "node \<Rightarrow> compiler \<Rightarrow> compiler" where
  "process_node n c =
     (case n of
        QualifiedRule prelude decls \<Rightarrow> process_qualified_rule prelude decls None c
      | AtRule kw prelude children txt \<Rightarrow> process_at_rule kw prelude children txt c
      | ParseError \<Rightarrow> c\<lparr>stats := (stats c)\<lparr>stat_parse_errors := stat_parse_errors (stats c) + 1\<rparr>\<rparr>)"

definition process_stylesheet :: "node list \<Rightarrow> compiler \<Rightarrow> compiler" where
  "process_stylesheet stylesheet c = fold process_node stylesheet c"


section \<open>Alphabetical ordering\<close>

definition dangerous_patterns :: "string list" where
  "dangerous_patterns = ['':link'', '':visited'', '':hover'', '':focus'', '':active'',
                         '':first-child'', '':last-child'', '':nth-'']"

definition is_dangerous :: "string \<Rightarrow> bool" where
  "is_dangerous sel = list_ex (\<lambda>pattern. contains sel pattern) dangerous_patterns"

text \<open>
  \<^verbatim>\<open>sorted(items, key=lambda x: x[0].lower())\<close> is a stable sort on the lower-cased
  selector; strings compare code point by code point.
\<close>

definition sorted_by_lower :: "scope \<Rightarrow> scope" where
  "sorted_by_lower items = sort_key (\<lambda>x. py_lower (fst x)) items"

text \<open>
  One scope in safe mode: the dangerous and the safe entries are collected in two
  dictionaries, and the new dictionary is updated with the dangerous ones, then
  with the sorted safe ones.
\<close>

definition sort_scope_safe :: "scope \<Rightarrow> scope" where
  "sort_scope_safe rs =
     (let dangerous_rules = od_of (filter (\<lambda>x. is_dangerous (fst x)) rs);
          safe_rules = od_of (filter (\<lambda>x. \<not> is_dangerous (fst x)) rs);
          sorted_safe = od_of (sorted_by_lower safe_rules)
      in od_update (od_update [] dangerous_rules) sorted_safe)"

definition sort_scope_unsafe :: "scope \<Rightarrow> scope" where
  "sort_scope_unsafe rs = od_of (sorted_by_lower rs)"

definition sort_rules :: "bool \<Rightarrow> compiler \<Rightarrow> compiler" where
  "sort_rules safe_mode c =
     (if safe_mode then
        c\<lparr>rules := sort_scope_safe (rules c),
          media_queries := map (\<lambda>m. (fst m, sort_scope_safe (snd m))) (media_queries c)\<rparr>
      else
        c\<lparr>rules := sort_scope_unsafe (rules c),
          media_queries := map (\<lambda>m. (fst m, sort_scope_unsafe (snd m))) (media_queries c)\<rparr>)"

section \<open>Regular expressions of the output stage\<close>

definition digits_value :: "string \<Rightarrow> nat" where
  "digits_value ds = foldl (\<lambda>n ch. 10 * n + (of_char ch - 48)) 0 ds"

text \<open>
  A match of \<^verbatim>\<open>key\s*(\d+)\<close> at the start of the text: the key, any whitespace, then
  at least one digit; the group is the longest run of digits.
\<close>

definition match_width :: "string \<Rightarrow> string \<Rightarrow> nat option" where
  "match_width key s =
     (if startswith s key then
        (let ds = takeWhile is_digit (dropWhile is_space (drop (length key) s))
         in if ds = [] then None else Some (digits_value ds))
      else None)"

text \<open>\<^verbatim>\<open>re.search(r'max-width:\s*(\d+)', condition)\<close>: the first position with a match.\<close>

fun search_max_width :: "string \<Rightarrow> nat option" where
  "search_max_width [] = None"
| "search_max_width (c # cs) =
     (case match_width ''max-width:'' (c # cs) of
        Some w \<Rightarrow> Some w
      | None \<Rightarrow> search_max_width cs)"

text \<open>
  \<^verbatim>\<open>re.search(r'(max-width|min-width):\s*(\d+)', condition)\<close>: the first position with
  a match, \<^verbatim>\<open>max-width\<close> tried before \<^verbatim>\<open>min-width\<close>; the result says whether group 1
  is \<^verbatim>\<open>max-width\<close> and gives the number of group 2.
\<close>

fun search_width :: "string \<Rightarrow> (bool \<times> nat) option" where
  "search_width [] = None"
| "search_width (c # cs) =
     (case match_width ''max-width:'' (c # cs) of
        Some w \<Rightarrow> Some (True, w)
      | None \<Rightarrow>
          (case match_width ''min-width:'' (c # cs) of
             Some w \<Rightarrow> Some (False, w)
           | None \<Rightarrow> search_width cs))"

text \<open>\<^verbatim>\<open>re.match(r'@keyframes\s+(\S+)', content)\<close>, group 1.\<close>

definition keyframes_name_match :: "string \<Rightarrow> string option" where
  "keyframes_name_match txt =
     (if startswith txt ''@keyframes'' then
        (let r = drop 10 txt;
             nm = takeWhile (\<lambda>ch. \<not> is_space ch) (dropWhile is_space r)
         in if takeWhile is_space r \<noteq> [] \<and> nm \<noteq> [] then Some nm else None)
      else None)"

text \<open>
  \<^verbatim>\<open>re.sub(r'\n{3,}', '\n\n', result)\<close>: every maximal run of three or more line
  feeds becomes two line feeds. The counter is the length of the run being read.
\<close>

fun collapse_newlines :: "nat \<Rightarrow> string \<Rightarrow> string" where
  "collapse_newlines k [] = replicate (min k 2) (CHR 0x0A)"
| "collapse_newlines k (c # cs) =
     (if c = CHR 0x0A then collapse_newlines (Suc k) cs
      else replicate (min k 2) (CHR 0x0A) @ c # collapse_newlines 0 cs)"

section \<open>The at-rule section\<close>

text \<open>
  The pass over \<^verbatim>\<open>self.at_rules\<close> that builds \<^verbatim>\<open>deduplicated_at_rules\<close>, with the
  dictionary \<^verbatim>\<open>seen_keyframes\<close> from names to indices.
\<close>

definition effective_name :: "at_entry \<Rightarrow> string" where
  "effective_name e =
     (let nm = (case name e of None \<Rightarrow> [] | Some n \<Rightarrow> n)
      in if nm = [] then (case keyframes_name_match (content e) of None \<Rightarrow> [] | Some n \<Rightarrow> n)
         else nm)"

definition dedupe_step ::
  "at_entry \<Rightarrow> (string \<rightharpoonup> nat) \<times> at_entry list \<Rightarrow> (string \<rightharpoonup> nat) \<times> at_entry list" where
  "dedupe_step e acc =
     (if keyword e = ''keyframes'' then
        (let nm = effective_name e in
         if nm \<noteq> [] then
           (case fst acc nm of
              Some idx \<Rightarrow> (fst acc, (snd acc)[idx := e])
            | None \<Rightarrow> ((fst acc)(nm \<mapsto> length (snd acc)), snd acc @ [e]))
         else (fst acc, snd acc @ [e]))
      else (fst acc, snd acc @ [e]))"

definition deduplicated_at_rules :: "at_entry list \<Rightarrow> at_entry list" where
  "deduplicated_at_rules ars = snd (fold dedupe_step ars (Map.empty, []))"

definition emit_at_rule :: "at_entry \<Rightarrow> string" where
  "emit_at_rule e =
     (let txt = py_replace (content e) ''/**/'' []
      in txt @ (if endswith txt [CHR 0x0A] then [] else [CHR 0x0A]))"

definition at_rules_section :: "at_entry list \<Rightarrow> string" where
  "at_rules_section ars =
     (if ars = [] then []
      else ''/* ===== AT-RULES PR'' @ [CHR 0xC9] @ ''SERV'' @ [CHR 0xC9] @ ''ES ===== */'' @ [CHR 0x0A] @
           concat (map emit_at_rule (deduplicated_at_rules ars)) @ [CHR 0x0A])"

section \<open>The sections of top-level rules\<close>

definition emit_rule :: "css_rule \<Rightarrow> string" where
  "emit_rule r = to_css ''    '' r @ [CHR 0x0A, CHR 0x0A]"

definition root_rules :: "scope \<Rightarrow> scope" where
  "root_rules rs = od_of (filter (\<lambda>kv. startswith (fst kv) '':root'') rs)"

definition root_section :: "scope \<Rightarrow> string" where
  "root_section rs =
     (if root_rules rs = [] then []
      else ''/* ===== VARIABLES CSS ===== */'' @ [CHR 0x0A] @
           concat (map (\<lambda>kv. emit_rule (snd kv)) (root_rules rs)))"

definition base_selectors :: "string list" where
  "base_selectors = [''*'', ''html'', ''body'']"

definition base_rules :: "scope \<Rightarrow> scope" where
  "base_rules rs =
     od_of (filter (\<lambda>kv. fst kv \<in> set base_selectors \<or> startswith (fst kv) ''::'') rs)"

definition base_section :: "scope \<Rightarrow> string" where
  "base_section rs =
     (if base_rules rs = [] then []
      else ''/* ===== RESET ET BASE ===== */'' @ [CHR 0x0A] @
           concat (map (\<lambda>sel. case od_get (base_rules rs) sel of
                                 None \<Rightarrow> [] | Some r \<Rightarrow> emit_rule r) base_selectors) @
           concat (map (\<lambda>kv. if fst kv \<notin> set base_selectors then emit_rule (snd kv) else [])
                       (base_rules rs)))"

definition main_rules :: "scope \<Rightarrow> scope" where
  "main_rules rs =
     od_of (filter (\<lambda>kv. \<not> od_has (root_rules rs) (fst kv) \<and> \<not> od_has (base_rules rs) (fst kv)) rs)"

datatype selector_group = Headings | Elements | Classes | Ids | Pseudos

definition selector_group :: "string \<Rightarrow> selector_group" where
  "selector_group sel =
     (if startswith sel ''h1'' \<or> startswith sel ''h2'' \<or> startswith sel ''h3'' \<or>
         startswith sel ''h4'' \<or> startswith sel ''h5'' \<or> startswith sel ''h6'' then Headings
      else if startswith sel ''.'' then Classes
      else if startswith sel ''#'' then Ids
      else if contains sel '':'' then Pseudos
      else Elements)"

definition rules_group :: "selector_group \<Rightarrow> scope \<Rightarrow> scope" where
  "rules_group g rs = od_of (filter (\<lambda>kv. selector_group (fst kv) = g) rs)"

definition emit_main_rule :: "css_rule \<Rightarrow> string" where
  "emit_main_rule r = py_replace (to_css ''    '' r) ''/**/'' [] @ [CHR 0x0A, CHR 0x0A]"

definition main_section :: "scope \<Rightarrow> string" where
  "main_section rs =
     (if main_rules rs = [] then []
      else ''/* ===== R'' @ [CHR 0xC8] @ ''GLES PRINCIPALES ===== */'' @ [CHR 0x0A] @
           concat (map (\<lambda>g. concat (map (\<lambda>kv. emit_main_rule (snd kv))
                                         (rules_group g (main_rules rs))))
                       [Headings, Elements, Classes, Ids, Pseudos]))"


section \<open>The media-query sections\<close>

definition normalize_condition :: "string \<Rightarrow> string" where
  "normalize_condition condition =
     (let n0 = py_join '' '' (py_split condition);
          n1 = py_replace (py_replace n0 '' :'' '':'') '': '' '':'';
          n2 = py_replace (py_replace n1 '' ('' ''('') ''( '' ''('';
          n3 = py_replace (py_replace n2 '' )'' '')'') '') '' '')''
      in n3)"

text \<open>
  \<^verbatim>\<open>merged_queries\<close>: the scopes of the conditions with the same normalized text are
  merged, a rule met again being merged into the rule already there.
\<close>

definition merge_rule_step :: "string \<times> css_rule \<Rightarrow> scope \<Rightarrow> scope" where
  "merge_rule_step kv target =
     (case od_get target (fst kv) of
        Some r \<Rightarrow> od_set (fst kv) (merge_with (snd kv) r) target
      | None \<Rightarrow> od_set (fst kv) (snd kv) target)"

definition merge_query_step ::
  "string \<times> scope \<Rightarrow> (string \<times> scope) list \<Rightarrow> (string \<times> scope) list" where
  "merge_query_step cr merged =
     (let normalized = normalize_condition (fst cr);
          target = (case od_get merged normalized of None \<Rightarrow> [] | Some t \<Rightarrow> t)
      in od_set normalized (fold merge_rule_step (snd cr) target) merged)"

definition merged_queries :: "(string \<times> scope) list \<Rightarrow> (string \<times> scope) list" where
  "merged_queries mq = fold merge_query_step mq []"

text \<open>
  The chain of tests that puts a normalized condition into one of the six
  dictionaries \<^verbatim>\<open>desktop_queries\<close>, \<^verbatim>\<open>tablet_queries\<close>, \<^verbatim>\<open>mobile_queries\<close>,
  \<^verbatim>\<open>print_queries\<close>, \<^verbatim>\<open>preference_queries\<close> and \<^verbatim>\<open>other_queries\<close>.
\<close>

datatype query_group = Desktop | Tablet | Mobile | Print | Preference | Other

definition classify :: "string \<Rightarrow> query_group" where
  "classify condition =
     (if contains condition ''print'' then Print
      else if contains condition ''prefers-'' then Preference
      else if contains condition ''max-width'' then
        (case search_max_width condition of
           Some width \<Rightarrow> (if width \<le> 768 then Mobile
                          else if width \<le> 1024 then Tablet
                          else Other)
         | None \<Rightarrow> Other)
      else if contains condition ''min-width'' \<and> \<not> contains condition ''max-width'' then Desktop
      else Other)"

definition queries_of :: "query_group \<Rightarrow> (string \<times> scope) list \<Rightarrow> (string \<times> scope) list" where
  "queries_of g merged = od_of (filter (\<lambda>cr. classify (fst cr) = g) merged)"

fun split_on :: "char \<Rightarrow> string \<Rightarrow> string list" where
  "split_on sep [] = [[]]"
| "split_on sep (c # cs) =
     (if c = sep then [] # split_on sep cs
      else (case split_on sep cs of [] \<Rightarrow> [[c]] | p # ps \<Rightarrow> (c # p) # ps))"

definition emit_media_rule :: "css_rule \<Rightarrow> string" where
  "emit_media_rule r =
     (if properties r \<noteq> [] then
        concat (map (\<lambda>line. if py_strip line \<noteq> []
                             then ''    '' @ py_replace line ''/**/'' [] @ [CHR 0x0A]
                             else [])
                    (split_on (CHR 0x0A) (to_css ''        '' r))) @ [CHR 0x0A]
      else [])"

definition emit_query :: "string \<times> scope \<Rightarrow> string" where
  "emit_query cr =
     ''@media '' @ fst cr @ '' {'' @ [CHR 0x0A] @
     concat (map (\<lambda>kv. emit_media_rule (snd kv)) (snd cr)) @
     ''}'' @ [CHR 0x0A, CHR 0x0A]"

text \<open>
  The key of the sort inside the desktop, mobile and other sections: minus the
  width when the first width found is a \<^verbatim>\<open>max-width\<close>, the width when it is a
  \<^verbatim>\<open>min-width\<close>, zero without a width.
\<close>

definition width_sort_key :: "string \<Rightarrow> int" where
  "width_sort_key condition =
     (case search_width condition of
        Some (is_max, width) \<Rightarrow> (if is_max then - int width else int width)
      | None \<Rightarrow> 0)"

definition sorted_queries :: "(string \<times> scope) list \<Rightarrow> (int \<times> string \<times> scope) list" where
  "sorted_queries queries =
     sort_key fst (map (\<lambda>cr. (width_sort_key (fst cr), fst cr, snd cr)) queries)"

definition width_section :: "string \<Rightarrow> (string \<times> scope) list \<Rightarrow> string" where
  "width_section section_name queries =
     (if queries = [] then []
      else [CHR 0x0A] @ ''/* '' @ section_name @ '' */'' @ [CHR 0x0A] @
           concat (map (\<lambda>q. emit_query (snd q)) (sorted_queries queries)))"

definition plain_section :: "string \<Rightarrow> (string \<times> scope) list \<Rightarrow> string" where
  "plain_section section_name queries =
     (if queries = [] then []
      else [CHR 0x0A] @ ''/* '' @ section_name @ '' */'' @ [CHR 0x0A] @
           concat (map emit_query queries))"

definition media_section :: "(string \<times> scope) list \<Rightarrow> string" where
  "media_section mq =
     (if mq = [] then []
      else
        (let merged = merged_queries mq in
         ''/* ===== MEDIA QUERIES ===== */'' @ [CHR 0x0A] @
         width_section ''--- DESKTOP ---'' (queries_of Desktop merged) @
         width_section ''--- MOBILE ---'' (queries_of Mobile merged) @
         width_section ''--- AUTRES ---'' (queries_of Other merged) @
         plain_section (''--- PR'' @ [CHR 0xC9] @ ''F'' @ [CHR 0xC9] @ ''RENCES UTILISATEUR ---'')
           (queries_of Preference merged) @
         plain_section ''--- PRINT ---'' (queries_of Print merged)))"

section \<open>The whole output\<close>

definition banner :: string where
  "banner =
     ''/* ================================================== */'' @ [CHR 0x0A] @
     ''/* CSS COMPIL'' @ [CHR 0xC9] @ '' AVEC PARSEUR ROBUSTE */'' @ [CHR 0x0A] @
     ''/* ================================================== */'' @ [CHR 0x0A, CHR 0x0A]"

definition assembled :: "compiler \<Rightarrow> string" where
  "assembled c =
     banner @ at_rules_section (at_rules c) @ root_section (rules c) @ base_section (rules c) @
     main_section (rules c) @ media_section (media_queries c)"

definition finish :: "string \<Rightarrow> string" where
  "finish joined =
     (let collapsed = collapse_newlines 0 joined
      in if endswith collapsed [CHR 0x0A] then collapsed else collapsed @ [CHR 0x0A])"

definition generate_output :: "compiler \<Rightarrow> string" where
  "generate_output c = finish (assembled c)"

text \<open>
  \<^verbatim>\<open>compile\<close> without the files: the nodes of the parsed stylesheet are processed,
  the store is sorted when \<^verbatim>\<open>alphabetical_order\<close> is set, and the text is generated.
\<close>

definition compile_store :: "bool \<Rightarrow> bool \<Rightarrow> node list \<Rightarrow> compiler" where
  "compile_store alphabetical_order safe_mode stylesheet =
     (let c = process_stylesheet stylesheet init_compiler
      in if alphabetical_order then sort_rules safe_mode c else c)"

definition compile :: "bool \<Rightarrow> bool \<Rightarrow> node list \<Rightarrow> string" where
  "compile alphabetical_order safe_mode stylesheet =
     generate_output (compile_store alphabetical_order safe_mode stylesheet)"

section \<open>Notions used to state the properties\<close>

text \<open>Three line feeds in a row somewhere in the text.\<close>

fun has_triple_newline :: "string \<Rightarrow> bool" where
  "has_triple_newline (a # b # c # r) =
     ((a = CHR 0x0A \<and> b = CHR 0x0A \<and> c = CHR 0x0A) \<or> has_triple_newline (b # c # r))"
| "has_triple_newline [a, b] = False"
| "has_triple_newline [a] = False"
| "has_triple_newline [] = False"

text \<open>
  What the safe alphabetical ordering promises for one scope, \<open>before\<close> being the
  scope in source order and \<open>after\<close> the sorted one: the dangerous selectors keep
  their relative order, the other selectors are in ascending order of their
  lower-cased text, and the entries are the same.
\<close>

definition safely_sorted :: "scope \<Rightarrow> scope \<Rightarrow> bool" where
  "safely_sorted before after =
     (filter is_dangerous (map fst after) = filter is_dangerous (map fst before) \<and>
      sorted (map py_lower (filter (\<lambda>sel. \<not> is_dangerous sel) (map fst after))) \<and>
      mset after = mset before)"

text \<open>The keys of every dictionary of rules in the store are distinct.\<close>

definition store_ok :: "compiler \<Rightarrow> bool" where
  "store_ok c =
     (distinct (map fst (rules c)) \<and> list_all (\<lambda>m. distinct (map fst (snd m))) (media_queries c))"

section \<open>Concrete stylesheets and texts\<close>

text \<open>
  \<open>media_rule cond\<close> is the node of \<^verbatim>\<open>@media cond { a { color: red } }\<close>, and
  \<open>media_block cond\<close> is the text generated for a media query with that one rule.
  \<open>text_lines\<close> ends every line with a line feed.
\<close>

definition media_rule :: "string \<Rightarrow> node" where
  "media_rule cond =
     AtRule ''media'' ('' '' @ cond @ '' '')
       [QualifiedRule ''a '' [Declaration ''color'' '' red '' False]]
       (''@media '' @ cond @ '' { a { color: red } }'')"

definition text_lines :: "string list \<Rightarrow> string" where
  "text_lines ls = concat (map (\<lambda>l. l @ [CHR 0x0A]) ls)"

definition media_block :: "string \<Rightarrow> string" where
  "media_block cond =
     text_lines [''@media '' @ cond @ '' {'', ''    a {'', ''            color: red;'', ''    }'',
                 '''', ''}'', '''']"

definition scenario :: "node list" where
  "scenario = [media_rule ''(min-width: 1200px)'', media_rule ''(max-width: 480px)'',
               media_rule ''print'', media_rule ''(prefers-color-scheme: dark)'',
               media_rule ''(max-width: 900px)'']"

text \<open>
  A text made of whitespace and complete comments only; the parser, which skips
  both, yields no node for it.
\<close>

fun only_comments :: "bool \<Rightarrow> string \<Rightarrow> bool" where
  "only_comments in_comment [] = (\<not> in_comment)"
| "only_comments in_comment [c] = (\<not> in_comment \<and> is_space c)"
| "only_comments False (c # d # cs) =
     (if is_space c then only_comments False (d # cs)
      else c = CHR ''/'' \<and> d = CHR ''*'' \<and> only_comments True cs)"
| "only_comments True (c # d # cs) =
     (if c = CHR ''*'' \<and> d = CHR ''/'' then only_comments False cs
      else only_comments True (d # cs))"

section \<open>Notions for the order inside a section\<close>

text \<open>
  \<open>section_order\<close> is the order in which \<^verbatim>\<open>width_section\<close> writes the queries of a
  section. \<open>may_precede c1 c2\<close> says that, by the widths that \<^verbatim>\<open>search_width\<close>
  finds, the condition \<open>c1\<close> is allowed to stand before \<open>c2\<close>: \<^verbatim>\<open>max-width\<close> conditions
  by descending width, then the conditions without a width, then \<^verbatim>\<open>min-width\<close>
  conditions by ascending width, a width of zero standing with the conditions
  without a width.
\<close>

definition section_order :: "(string \<times> scope) list \<Rightarrow> (string \<times> scope) list" where
  "section_order queries = map snd (sorted_queries queries)"

definition may_precede :: "string \<Rightarrow> string \<Rightarrow> bool" where
  "may_precede c1 c2 =
     (case search_width c1 of
        None \<Rightarrow>
          (case search_width c2 of
             None \<Rightarrow> True
           | Some m2 \<Rightarrow> (if fst m2 then snd m2 = 0 else True))
      | Some m1 \<Rightarrow>
          (if fst m1 then
             (case search_width c2 of
                None \<Rightarrow> True
              | Some m2 \<Rightarrow> (if fst m2 then snd m2 \<le> snd m1 else True))
           else
             (case search_width c2 of
                None \<Rightarrow> snd m1 = 0
              | Some m2 \<Rightarrow> (if fst m2 then snd m1 = 0 \<and> snd m2 = 0 else snd m1 \<le> snd m2))))"

text \<open>
  Two lists of merged queries with the same conditions at the same places and the
  same rules under every condition other than \<open>n\<close>.
\<close>

definition same_but :: "string \<Rightarrow> (string \<times> scope) list \<Rightarrow> (string \<times> scope) list \<Rightarrow> bool" where
  "same_but n xs ys = list_all2 (\<lambda>a b. fst a = fst b \<and> (fst a \<noteq> n \<longrightarrow> snd a = snd b)) xs ys"

section \<open>Notions for the keyframes at-rules\<close>

text \<open>
  \<open>keyframes_named n nd\<close>: the node is a \<^verbatim>\<open>@keyframes\<close> at-rule whose name, the
  trimmed text of its prelude, is \<open>n\<close>. \<open>node_text\<close> is the serialized text of an
  at-rule. \<open>emitted_at_rules\<close> is the list of entries that the at-rule section writes
  for a stylesheet, in the order it writes them.
\<close>

definition keyframes_named :: "string \<Rightarrow> node \<Rightarrow> bool" where
  "keyframes_named n nd =
     (case nd of
        QualifiedRule prelude decls \<Rightarrow> False
      | AtRule kw prelude children tx \<Rightarrow> kw = ''keyframes'' \<and> py_strip (serialize_tokens prelude) = n
      | ParseError \<Rightarrow> False)"

definition node_text :: "node \<Rightarrow> string" where
  "node_text nd =
     (case nd of
        QualifiedRule prelude decls \<Rightarrow> []
      | AtRule kw prelude children tx \<Rightarrow> tx
      | ParseError \<Rightarrow> [])"

definition emitted_at_rules :: "node list \<Rightarrow> at_entry list" where
  "emitted_at_rules ss = deduplicated_at_rules (at_rules (process_stylesheet ss init_compiler))"

text \<open>
  The output stage derives a name for a keyframes entry without a name from its
  text. \<open>fallback_clash_free\<close> says that no name derived in this way from a top-level
  \<^verbatim>\<open>@keyframes\<close> at-rule with an empty name is the name of a top-level \<^verbatim>\<open>@keyframes\<close>
  at-rule. The serializer writes the block of such an at-rule right after the
  whitespace of its prelude, so a derived name begins with a brace or a semicolon,
  which no prelude begins with.
\<close>

definition fallback_clash_free :: "node list \<Rightarrow> bool" where
  "fallback_clash_free ss =
     list_all (\<lambda>nd. \<not> keyframes_named [] nd \<or>
                     (case keyframes_name_match (node_text nd) of
                        None \<Rightarrow> True
                      | Some d \<Rightarrow> \<not> list_ex (keyframes_named d) ss)) ss"

text \<open>The effect of one top-level node on \<^verbatim>\<open>self.at_rules\<close>.\<close>

definition at_step :: "node \<Rightarrow> at_entry list \<Rightarrow> at_entry list" where
  "at_step nd ars = at_rules (process_node nd (init_compiler\<lparr>at_rules := ars\<rparr>))"

text \<open>
  The names that the output stage works with, for the keyframes entries that have
  one.
\<close>

definition eff_names :: "at_entry list \<Rightarrow> string list" where
  "eff_names ars =
     map effective_name (filter (\<lambda>e. keyword e = ''keyframes'' \<and> effective_name e \<noteq> []) ars)"

text \<open>
  \<open>latest n cur ss\<close> is the text of the last \<^verbatim>\<open>@keyframes\<close> named \<open>n\<close> in \<open>ss\<close>, or
  \<open>cur\<close> when there is none. \<open>has_origin ss e\<close> says that the entry \<open>e\<close> has the name
  and the text of a \<^verbatim>\<open>@keyframes\<close> at-rule of \<open>ss\<close>, and \<open>entries_ok\<close> that every
  keyframes entry has such an origin and that no two have the same name.
\<close>

definition latest :: "string \<Rightarrow> string \<Rightarrow> node list \<Rightarrow> string" where
  "latest n cur ss = fold (\<lambda>nd cur. if keyframes_named n nd then node_text nd else cur) ss cur"

definition has_origin :: "node list \<Rightarrow> at_entry \<Rightarrow> bool" where
  "has_origin ss e =
     (\<exists>nm nd. name e = Some nm \<and> nd \<in> set ss \<and> keyframes_named nm nd \<and>
              node_text nd = content e)"

definition entries_ok :: "node list \<Rightarrow> at_entry list \<Rightarrow> bool" where
  "entries_ok ss ars =
     ((\<forall>e \<in> set ars. keyword e = ''keyframes'' \<longrightarrow> has_origin ss e) \<and>
      distinct (map name (filter (\<lambda>e. keyword e = ''keyframes'') ars)))"

section \<open>Notions for the declarations of a rule\<close>

text \<open>
  The declarations of a stylesheet, read from its nodes alone. A scope is \<open>None\<close>
  for the top level and \<open>Some m\<close> for the media condition \<open>m\<close>, the trimmed text of
  the prelude of a \<^verbatim>\<open>@media\<close> block; a rule stands in the scope of the innermost
  \<^verbatim>\<open>@media\<close> block around it, at the top level when there is none. The individual
  selectors of a rule are the pieces of its prelude between the commas at depth 0
  outside string literals (\<open>split_spec\<close>). \<open>decl_pairs\<close> gives the name of a
  declaration and its value: the text of the value, trimmed, followed by
  \<^verbatim>\<open>!important\<close> when the declaration is important. \<open>declared_in cur sc sel nd\<close> lists,
  in source order, the declarations that stand under the selector \<open>sel\<close> in the
  scope \<open>sc\<close> within the node \<open>nd\<close>, itself in the scope \<open>cur\<close>; rules inside an
  at-rule count, at any depth. \<open>declared sc sel ss\<close> lists those of the stylesheet
  \<open>ss\<close>, and \<open>last_declared\<close> gives for a property the value of the last of them.
\<close>

definition decl_pairs :: "decl \<Rightarrow> (string \<times> string) list" where
  "decl_pairs d =
     (case d of
        Declaration prop val important \<Rightarrow>
          [(prop, py_strip (py_strip val @ (if important then '' !important'' else [])))]
      | DeclError \<Rightarrow> []
      | DeclOther \<Rightarrow> [])"

definition rule_declarations :: "decl list \<Rightarrow> (string \<times> string) list" where
  "rule_declarations decls = concat (map decl_pairs decls)"

fun declared_in :: "string option \<Rightarrow> string option \<Rightarrow> string \<Rightarrow> node \<Rightarrow> (string \<times> string) list" where
  "declared_in cur sc sel (QualifiedRule prelude decls) =
     (if cur = sc \<and> sel \<in> set (split_spec prelude) then rule_declarations decls else [])"
| "declared_in cur sc sel (AtRule kw prelude children tx) =
     concat (map (declared_in (if kw = ''media'' then Some (py_strip prelude) else cur) sc sel)
               children)"
| "declared_in cur sc sel ParseError = []"

definition declared :: "string option \<Rightarrow> string \<Rightarrow> node list \<Rightarrow> (string \<times> string) list" where
  "declared sc sel ss = concat (map (declared_in None sc sel) ss)"

definition last_declared :: "(string \<times> string) list \<Rightarrow> string \<Rightarrow> string option" where
  "last_declared decls prop = map_of (rev decls) prop"

text \<open>
  The rules that the compiler reads are those at the top level and those directly
  inside a top-level \<^verbatim>\<open>@media\<close> block: \<^verbatim>\<open>process_at_rule\<close> parses the content of a
  \<^verbatim>\<open>@media\<close> block only and passes over the children that are not qualified rules.
  \<open>direct_rules ss\<close> is the stylesheet \<open>ss\<close> with every other at-rule taken without
  its content.
\<close>

definition without_content :: "node \<Rightarrow> node" where
  "without_content nd =
     (case nd of
        QualifiedRule prelude decls \<Rightarrow> nd
      | AtRule kw prelude children tx \<Rightarrow> AtRule kw prelude [] tx
      | ParseError \<Rightarrow> nd)"

definition direct_rules_node :: "node \<Rightarrow> node" where
  "direct_rules_node nd =
     (case nd of
        QualifiedRule prelude decls \<Rightarrow> nd
      | AtRule kw prelude children tx \<Rightarrow>
          (if kw = ''media'' then AtRule kw prelude (map without_content children) tx
           else AtRule kw prelude [] tx)
      | ParseError \<Rightarrow> nd)"

definition direct_rules :: "node list \<Rightarrow> node list" where
  "direct_rules ss = map direct_rules_node ss"

text \<open>
  What the store holds: the dictionary of a scope, and the properties of the rule
  of a selector in it (none when there is no such rule).
\<close>

definition stored_scope :: "string option \<Rightarrow> compiler \<Rightarrow> scope" where
  "stored_scope sc c =
     (case sc of
        None \<Rightarrow> rules c
      | Some m \<Rightarrow> (case od_get (media_queries c) m of None \<Rightarrow> [] | Some t \<Rightarrow> t))"

definition scope_properties :: "scope \<Rightarrow> string \<Rightarrow> string \<Rightarrow> string option" where
  "scope_properties t sel prop =
     (case od_get t sel of None \<Rightarrow> None | Some r \<Rightarrow> od_get (properties r) prop)"

definition stored_properties :: "string option \<Rightarrow> string \<Rightarrow> compiler \<Rightarrow> string \<Rightarrow> string option" where
  "stored_properties sc sel c prop = scope_properties (stored_scope sc c) sel prop"

text \<open>
  The stylesheets of the last-wins theorem. In the rules that the compiler reads,
  \<^item> a property name has no whitespace at either end (the tokenizer gives such names
    for identifiers written without escapes);
  \<^item> no prelude and no value contains the text \<^verbatim>\<open>/**/\<close>, an empty comment;
  \<^item> in the prelude of a rule, no quote that opens or closes a string literal stands
    right after an escaped backslash;
  \<^item> the condition of a \<^verbatim>\<open>@media\<close> block is not empty.
\<close>

definition decl_plain :: "decl \<Rightarrow> bool" where
  "decl_plain d =
     (case d of
        Declaration prop val important \<Rightarrow> py_strip prop = prop \<and> \<not> contains val ''/**/''
      | DeclError \<Rightarrow> True
      | DeclOther \<Rightarrow> True)"

definition rule_plain :: "node \<Rightarrow> bool" where
  "rule_plain nd =
     (case nd of
        QualifiedRule prelude decls \<Rightarrow>
          \<not> contains prelude ''/**/'' \<and> plain_quotes None False False prelude \<and>
          list_all decl_plain decls
      | AtRule kw prelude children tx \<Rightarrow> True
      | ParseError \<Rightarrow> True)"

definition node_plain :: "node \<Rightarrow> bool" where
  "node_plain nd =
     (case nd of
        QualifiedRule prelude decls \<Rightarrow> rule_plain nd
      | AtRule kw prelude children tx \<Rightarrow>
          (if kw = ''media''
           then \<not> contains prelude ''/**/'' \<and> py_strip prelude \<noteq> [] \<and>
                list_all rule_plain children
           else True)
      | ParseError \<Rightarrow> True)"

definition plain_stylesheet :: "node list \<Rightarrow> bool" where
  "plain_stylesheet ss = list_all node_plain ss"

text \<open>
  For the proofs: \<open>raw_pairs\<close> are the name and the value of a declaration as the
  block's dictionary takes them, \<open>trimmed\<close> is what \<^verbatim>\<open>add_property\<close> makes of the
  items of a dictionary, and \<open>target_scope\<close> is the scope that
  \<^verbatim>\<open>process_qualified_rule\<close> writes to for its argument \<^verbatim>\<open>media_condition\<close>, the top
  level when the condition is \<^verbatim>\<open>None\<close> or empty.
\<close>

definition raw_pairs :: "decl \<Rightarrow> (string \<times> string) list" where
  "raw_pairs d =
     (case d of
        Declaration prop serialized important \<Rightarrow> [(prop, declaration_value serialized important)]
      | DeclError \<Rightarrow> []
      | DeclOther \<Rightarrow> [])"

definition trimmed :: "(string \<times> string) list \<Rightarrow> (string \<times> string) list" where
  "trimmed props = map (\<lambda>pv. (py_strip (fst pv), py_strip (snd pv))) props"

definition scope_of_condition :: "string \<Rightarrow> string option" where
  "scope_of_condition m = (if m = [] then None else Some m)"

definition target_scope :: "string option \<Rightarrow> string option" where
  "target_scope mc = (case mc of None \<Rightarrow> None | Some m \<Rightarrow> scope_of_condition m)"

text \<open>
  Stylesheets for the examples: a rule inside \<^verbatim>\<open>@supports\<close> inside \<^verbatim>\<open>@media screen\<close>,
  and a stylesheet with two selectors in one prelude, a selector with an escape,
  an important declaration and an at-rule inside a \<^verbatim>\<open>@media\<close> block.
\<close>

definition nested_sheet :: "node list" where
  "nested_sheet =
     [AtRule ''media'' '' screen ''
        [AtRule ''supports'' '' (display: grid) ''
           [QualifiedRule ''a '' [Declaration ''color'' '' red'' False]]
           ''@supports (display: grid) { a { color: red } }'']
        ''@media screen { @supports (display: grid) { a { color: red } } }'']"

definition sample_sheet :: "node list" where
  "sample_sheet =
     [QualifiedRule (''a, .md'' @ [CHR 0x5C] @ '':b '')
        [Declaration ''color'' '' red'' False, Declaration ''margin'' '' 0'' False,
         Declaration ''color'' '' blue '' False],
      AtRule ''media'' '' (max-width: 600px) ''
        [QualifiedRule ''a '' [Declaration ''color'' '' green'' True],
         AtRule ''supports'' '' (display: grid) ''
           [QualifiedRule ''a '' [Declaration ''color'' '' black'' False]]
           ''@supports (display: grid) { a { color: black } }'']
        ''@media (max-width: 600px) { a { color: green !important } @supports (display: grid) { a { color: black } } }'',
      QualifiedRule ''a '' [Declaration ''margin'' '' 1px'' False]]"


section \<open>Properties of selector splitting\<close>

lemma cut_at_nonempty: "cut_at ms s \<noteq> []"
  by (induction ms s rule: cut_at.induct) (auto split: list.splits)

lemma py_strip_Nil: "py_strip [] = []"
  by (simp add: py_strip_def)

lemma quote_step_quote:
  "scanner_ok st \<Longrightarrow>
   quote_char (quote_step c st) = quote_after (quote_char st) (prev st = Some (CHR 0x5C)) c"
  by (auto simp: scanner_ok_def quote_step_def quote_after_def split: option.splits)

lemma quote_step_in_string:
  "scanner_ok st \<Longrightarrow>
   in_string (quote_step c st)
     = (quote_after (quote_char st) (prev st = Some (CHR 0x5C)) c \<noteq> None)"
  by (auto simp: scanner_ok_def quote_step_def quote_after_def split: option.splits)

lemma quote_step_rest:
  "result (quote_step c st) = result st" "current (quote_step c st) = current st"
  "depth (quote_step c st) = depth st" "prev (quote_step c st) = prev st"
  by (simp_all add: quote_step_def)

lemma flush_fields:
  "depth (flush st) = depth st" "in_string (flush st) = in_string st"
  "quote_char (flush st) = quote_char st" "prev (flush st) = prev st"
  "current (flush st) = []"
  "result (flush st) = result st @ filter (\<lambda>x. x \<noteq> []) [py_strip (current st)]"
  by (simp_all add: flush_def Let_def py_strip_Nil)

lemma step_in_string:
  assumes "scanner_ok st" "quote_after (quote_char st) (prev st = Some (CHR 0x5C)) c \<noteq> None"
  shows "result (split_step c st) = result st" "current (split_step c st) = current st @ [c]"
    "depth (split_step c st) = depth st" "prev (split_step c st) = Some c"
    "quote_char (split_step c st) = quote_after (quote_char st) (prev st = Some (CHR 0x5C)) c"
    "scanner_ok (split_step c st)"
  using assms quote_step_quote [OF assms(1), of c] quote_step_in_string [OF assms(1), of c]
  by (simp_all add: split_step_def Let_def quote_step_rest scanner_ok_def)

lemma step_open:
  assumes "scanner_ok st" "quote_after (quote_char st) (prev st = Some (CHR 0x5C)) c = None" "c \<in> set ''([{''"
  shows "result (split_step c st) = result st" "current (split_step c st) = current st @ [c]"
    "depth (split_step c st) = depth st + 1" "prev (split_step c st) = Some c"
    "quote_char (split_step c st) = None"
    "scanner_ok (split_step c st)"
  using assms quote_step_quote [OF assms(1), of c] quote_step_in_string [OF assms(1), of c]
  by (simp_all add: split_step_def Let_def quote_step_rest scanner_ok_def)

lemma step_close:
  assumes "scanner_ok st" "quote_after (quote_char st) (prev st = Some (CHR 0x5C)) c = None"
    "c \<notin> set ''([{''" "c \<in> set '')]}''"
  shows "result (split_step c st) = result st" "current (split_step c st) = current st @ [c]"
    "depth (split_step c st) = depth st - 1" "prev (split_step c st) = Some c"
    "quote_char (split_step c st) = None"
    "scanner_ok (split_step c st)"
  using assms quote_step_quote [OF assms(1), of c] quote_step_in_string [OF assms(1), of c]
  by (simp_all add: split_step_def Let_def quote_step_rest scanner_ok_def)

lemma step_comma:
  assumes "scanner_ok st" "quote_after (quote_char st) (prev st = Some (CHR 0x5C)) c = None"
    "c \<notin> set ''([{''" "c \<notin> set '')]}''" "c = CHR '',''" "depth st = 0"
  shows "result (split_step c st) = result st @ filter (\<lambda>x. x \<noteq> []) [py_strip (current st)]"
    "current (split_step c st) = []"
    "depth (split_step c st) = depth st" "prev (split_step c st) = Some c"
    "quote_char (split_step c st) = None"
    "scanner_ok (split_step c st)"
  using assms quote_step_quote [OF assms(1), of c] quote_step_in_string [OF assms(1), of c]
  by (simp_all add: split_step_def Let_def quote_step_rest scanner_ok_def flush_fields)

lemma step_other:
  assumes "scanner_ok st" "quote_after (quote_char st) (prev st = Some (CHR 0x5C)) c = None"
    "c \<notin> set ''([{''" "c \<notin> set '')]}''" "\<not> (c = CHR '','' \<and> depth st = 0)"
  shows "result (split_step c st) = result st" "current (split_step c st) = current st @ [c]"
    "depth (split_step c st) = depth st" "prev (split_step c st) = Some c"
    "quote_char (split_step c st) = None"
    "scanner_ok (split_step c st)"
  using assms quote_step_quote [OF assms(1), of c] quote_step_in_string [OF assms(1), of c]
  by (auto simp add: split_step_def Let_def quote_step_rest scanner_ok_def)

lemma onto_first_cut_False:
  "onto_first cur (case cut_at ms cs of [] \<Rightarrow> [[c]] | p # ps \<Rightarrow> (c # p) # ps)
     = onto_first (cur @ [c]) (cut_at ms cs)"
  using cut_at_nonempty [of ms cs] by (cases "cut_at ms cs") simp_all

lemma onto_first_Nil: "xs \<noteq> [] \<Longrightarrow> onto_first [] xs = xs"
  by (cases xs) simp_all

lemma quote_after_same:
  assumes "e \<longrightarrow> a" "\<not> (a \<and> \<not> e \<and> quote_after q False c \<noteq> q)"
  shows "quote_after q a c = quote_after q e c"
  using assms by (auto simp: quote_after_def)

lemma loop_spec:
  "scanner_ok st \<Longrightarrow> (e \<longrightarrow> prev st = Some (CHR 0x5C)) \<Longrightarrow>
   plain_quotes (quote_char st) e (prev st = Some (CHR 0x5C)) s \<Longrightarrow>
   result (flush (fold split_step s st)) =
     result st @ filter (\<lambda>x. x \<noteq> [])
       (map py_strip (onto_first (current st)
          (cut_at (top_level_commas (depth st) (quote_char st) e s) s)))"
proof (induction s arbitrary: st e)
  case Nil
  then show ?case by (simp add: flush_fields)
next
  case (Cons c cs)
  let ?a = "prev st = Some (CHR 0x5C)"
  let ?q = "quote_after (quote_char st) ?a c"
  let ?e = "c = CHR 0x5C \<and> \<not> e"
  have ok: "scanner_ok st"
    using Cons.prems(1) .
  have here: "\<not> (?a \<and> \<not> e \<and> quote_after (quote_char st) False c \<noteq> quote_char st)"
    using Cons.prems(3) by simp
  have same: "quote_after (quote_char st) e c = ?q"
    by (rule quote_after_same [OF Cons.prems(2) here, symmetric])
  have "plain_quotes (quote_after (quote_char st) e c) ?e (c = CHR 0x5C) cs"
    using Cons.prems(3) by simp
  then have rest: "plain_quotes ?q ?e (c = CHR 0x5C) cs"
    by (simp only: same)
  consider (str) "?q \<noteq> None"
    | (opn) "?q = None" "c \<in> set ''([{''"
    | (cls) "?q = None" "c \<notin> set ''([{''" "c \<in> set '')]}''"
    | (com) "?q = None" "c \<notin> set ''([{''" "c \<notin> set '')]}''" "c = CHR '',''" "depth st = 0"
    | (oth) "?q = None" "c \<notin> set ''([{''" "c \<notin> set '')]}''"
        "\<not> (c = CHR '','' \<and> depth st = 0)"
    by blast
  then show ?case
  proof cases
    case str
    note S = step_in_string [OF ok str]
    have i: "?e \<longrightarrow> prev (split_step c st) = Some (CHR 0x5C)"
      using S(4) by auto
    have r: "plain_quotes (quote_char (split_step c st)) ?e
               (prev (split_step c st) = Some (CHR 0x5C)) cs"
      using rest by (simp add: S(4,5))
    show ?thesis
      using str by (simp add: Cons.IH [OF S(6) i r] S onto_first_cut_False same)
  next
    case opn
    note S = step_open [OF ok opn]
    have i: "?e \<longrightarrow> prev (split_step c st) = Some (CHR 0x5C)"
      using S(4) by auto
    have r: "plain_quotes (quote_char (split_step c st)) ?e
               (prev (split_step c st) = Some (CHR 0x5C)) cs"
      using rest opn(1) by (simp add: S(4,5))
    show ?thesis
      using opn by (simp add: Cons.IH [OF S(6) i r] S onto_first_cut_False same)
  next
    case cls
    note S = step_close [OF ok cls]
    have i: "?e \<longrightarrow> prev (split_step c st) = Some (CHR 0x5C)"
      using S(4) by auto
    have r: "plain_quotes (quote_char (split_step c st)) ?e
               (prev (split_step c st) = Some (CHR 0x5C)) cs"
      using rest cls(1) by (simp add: S(4,5))
    show ?thesis
      using cls by (simp add: Cons.IH [OF S(6) i r] S onto_first_cut_False same)
  next
    case com
    note S = step_comma [OF ok com]
    have i: "?e \<longrightarrow> prev (split_step c st) = Some (CHR 0x5C)"
      using S(4) by auto
    have r: "plain_quotes (quote_char (split_step c st)) ?e
               (prev (split_step c st) = Some (CHR 0x5C)) cs"
      using rest com(1) by (simp add: S(4,5))
    note E = Cons.IH [OF S(6) i r, unfolded S]
    have q0: "quote_after (quote_char st) e c = None"
      using same com(1) by simp
    show ?thesis
      using com E q0 by (simp add: onto_first_Nil cut_at_nonempty)
  next
    case oth
    note S = step_other [OF ok oth]
    have i: "?e \<longrightarrow> prev (split_step c st) = Some (CHR 0x5C)"
      using S(4) by auto
    have r: "plain_quotes (quote_char (split_step c st)) ?e
               (prev (split_step c st) = Some (CHR 0x5C)) cs"
      using rest oth(1) by (simp add: S(4,5))
    have F: "(c = CHR '','' \<and> depth st = 0) = False"
      using oth by simp
    show ?thesis
      using oth(1-3) by (simp add: Cons.IH [OF S(6) i r] S onto_first_cut_False F same)
  qed
qed

lemma split_selectors_refines:
  "plain_quotes None False False s \<Longrightarrow> split_selectors s = split_spec s"
  using loop_spec [of split_init False s]
  by (simp add: split_selectors_def split_spec_def scanner_ok_def split_init_def
      onto_first_Nil cut_at_nonempty)

subsection \<open>Whitespace around the text\<close>

lemma dropWhile_all: "list_all P xs \<Longrightarrow> dropWhile P (xs @ ys) = dropWhile P ys"
  by (simp add: list_all_iff)

lemma dropWhile_all_Nil: "list_all P xs \<Longrightarrow> dropWhile P xs = []"
  by (simp add: list_all_iff)

lemma py_strip_leading: "list_all is_space ws \<Longrightarrow> py_strip (ws @ s) = py_strip s"
  by (simp add: py_strip_def dropWhile_all)

lemma py_strip_trailing:
  assumes ws: "list_all is_space ws"
  shows "py_strip (s @ ws) = py_strip s"
proof (cases "list_all is_space s")
  case True
  have "list_all is_space (s @ ws)"
    using True ws by simp
  then show ?thesis
    using True by (simp only: py_strip_def dropWhile_all_Nil)
next
  case False
  obtain x where "x \<in> set s" "\<not> is_space x"
    using False by (auto simp: list_all_iff)
  then have d: "dropWhile is_space (s @ ws) = dropWhile is_space s @ ws"
    by (rule dropWhile_append1)
  have "list_all is_space (rev ws)"
    using ws by (simp add: list_all_iff)
  then show ?thesis
    by (simp add: py_strip_def d dropWhile_all)
qed

lemma takeWhile_all: "list_all P (takeWhile P xs)"
  using set_takeWhileD [of _ P xs] by (auto simp: list_all_iff)

lemma py_strip_split:
  "\<exists>ws1 ws2. s = ws1 @ py_strip s @ ws2 \<and> list_all is_space ws1 \<and> list_all is_space ws2"
proof -
  let ?t = "dropWhile is_space s"
  let ?w = "takeWhile is_space (rev ?t)"
  have "rev (?w @ dropWhile is_space (rev ?t)) = ?t"
    by (simp only: takeWhile_dropWhile_id rev_rev_ident)
  then have b: "py_strip s @ rev ?w = ?t"
    by (simp only: rev_append py_strip_def)
  have "takeWhile is_space s @ ?t = s"
    by (rule takeWhile_dropWhile_id)
  then have a: "s = takeWhile is_space s @ py_strip s @ rev ?w"
    by (simp only: b)
  have c: "list_all is_space (takeWhile is_space s)"
    by (rule takeWhile_all)
  have "list_all is_space ?w"
    by (rule takeWhile_all)
  then have d: "list_all is_space (rev ?w)"
    by (simp add: list_all_iff)
  show ?thesis
    using a c d by blast
qed

lemma py_strip_idem: "py_strip (py_strip s) = py_strip s"
proof -
  obtain ws1 ws2 where s: "s = ws1 @ py_strip s @ ws2"
    and w: "list_all is_space ws1" "list_all is_space ws2"
    using py_strip_split by blast
  have "py_strip (ws1 @ py_strip s @ ws2) = py_strip (py_strip s @ ws2)"
    by (rule py_strip_leading [OF w(1)])
  also have "\<dots> = py_strip (py_strip s)"
    by (rule py_strip_trailing [OF w(2)])
  finally show ?thesis
    using s by simp
qed

lemma space_char:
  "is_space c \<Longrightarrow> c \<noteq> CHR 0x22 \<and> c \<noteq> CHR 0x27 \<and> c \<noteq> CHR 0x5C \<and> c \<noteq> CHR '','' \<and>
     c \<notin> set ''([{'' \<and> c \<notin> set '')]}''"
  by (auto simp: is_space_def)

lemma quote_after_space: "is_space c \<Longrightarrow> quote_after q e c = q"
  using space_char [of c] by (simp add: quote_after_def)

lemma marks_spaces:
  "list_all is_space ws \<Longrightarrow> top_level_commas d q e ws = replicate (length ws) False"
proof (induction ws arbitrary: d q e)
  case Nil
  show ?case by simp
next
  case (Cons c ws)
  have c: "is_space c" and ws: "list_all is_space ws"
    using Cons.prems by simp_all
  show ?case
    using space_char [OF c] by (simp add: quote_after_space [OF c] Cons.IH [OF ws])
qed

lemma marks_leading:
  "list_all is_space ws \<Longrightarrow>
   top_level_commas d q False (ws @ s) = replicate (length ws) False @ top_level_commas d q False s"
proof (induction ws arbitrary: d q)
  case Nil
  show ?case by simp
next
  case (Cons c ws)
  have c: "is_space c" and ws: "list_all is_space ws"
    using Cons.prems by simp_all
  show ?case
    using space_char [OF c] by (simp add: quote_after_space [OF c] Cons.IH [OF ws])
qed

lemma marks_append:
  "\<exists>d' q' e'. top_level_commas d q e (s @ t) = top_level_commas d q e s @ top_level_commas d' q' e' t"
proof (induction s arbitrary: d q e)
  case Nil
  show ?case by auto
next
  case (Cons c s)
  show ?case
    using Cons.IH by (simp del: set_simps)
qed

lemma marks_length: "length (top_level_commas d q e s) = length s"
  by (induction s arbitrary: d q e) simp_all

lemma cut_at_leading:
  "cut_at (replicate (length ws) False @ ms) (ws @ s) = onto_first ws (cut_at ms s)"
proof (induction ws)
  case Nil
  show ?case by (simp add: onto_first_Nil cut_at_nonempty)
next
  case (Cons c ws)
  obtain p ps where p: "cut_at ms s = p # ps"
    using cut_at_nonempty [of ms s] by (cases "cut_at ms s") auto
  show ?case
    using Cons.IH by (simp add: p)
qed

lemma cut_at_trailing:
  "length ms = length s \<Longrightarrow>
   cut_at (ms @ replicate (length ws) False) (s @ ws)
     = butlast (cut_at ms s) @ [last (cut_at ms s) @ ws]"
proof (induction ms s rule: list_induct2)
  case Nil
  have "cut_at (replicate (length ws) False) ws = [ws]"
    using cut_at_leading [of ws "[]" "[]"] by simp
  then show ?case by simp
next
  case (Cons m ms c s)
  obtain p ps where p: "cut_at ms s = p # ps"
    using cut_at_nonempty [of ms s] by (cases "cut_at ms s") auto
  show ?case
    using Cons.IH by (cases m) (simp_all add: p cut_at_nonempty)
qed

lemma split_spec_leading:
  assumes "list_all is_space ws"
  shows "split_spec (ws @ s) = split_spec s"
proof -
  let ?ms = "top_level_commas 0 None False s"
  obtain p ps where p: "cut_at ?ms s = p # ps"
    using cut_at_nonempty [of ?ms s] by (cases "cut_at ?ms s") auto
  show ?thesis
    by (simp add: split_spec_def marks_leading [OF assms] cut_at_leading p
        py_strip_leading [OF assms])
qed

lemma split_spec_trailing:
  assumes "list_all is_space ws"
  shows "split_spec (s @ ws) = split_spec s"
proof -
  let ?ms = "top_level_commas 0 None False s"
  let ?X = "cut_at ?ms s"
  obtain d q e where "top_level_commas 0 None False (s @ ws) = ?ms @ top_level_commas d q e ws"
    using marks_append [of 0 None False s ws] by blast
  then have m: "top_level_commas 0 None False (s @ ws) = ?ms @ replicate (length ws) False"
    by (simp add: marks_spaces [OF assms])
  have c: "cut_at (?ms @ replicate (length ws) False) (s @ ws) = butlast ?X @ [last ?X @ ws]"
    by (rule cut_at_trailing) (rule marks_length)
  have "map py_strip (butlast ?X @ [last ?X @ ws]) = map py_strip (butlast ?X @ [last ?X])"
    by (simp add: py_strip_trailing [OF assms])
  also have "\<dots> = map py_strip ?X"
    by (simp add: cut_at_nonempty)
  finally show ?thesis
    by (simp only: split_spec_def m c)
qed

lemma split_spec_strip: "split_spec (py_strip s) = split_spec s"
proof -
  obtain ws1 ws2 where s: "s = ws1 @ py_strip s @ ws2"
    and w: "list_all is_space ws1" "list_all is_space ws2"
    using py_strip_split by blast
  have "split_spec (ws1 @ py_strip s @ ws2) = split_spec (py_strip s @ ws2)"
    by (rule split_spec_leading [OF w(1)])
  also have "\<dots> = split_spec (py_strip s)"
    by (rule split_spec_trailing [OF w(2)])
  finally show ?thesis
    using s by simp
qed

lemma split_spec_trimmed: "filter (\<lambda>s. s \<noteq> []) (map py_strip (split_spec s)) = split_spec s"
proof -
  have "filter (\<lambda>s. s \<noteq> []) (map py_strip (filter (\<lambda>s. s \<noteq> []) (map py_strip xs)))
          = filter (\<lambda>s. s \<noteq> []) (map py_strip xs)" for xs
    by (induction xs) (simp_all add: py_strip_idem)
  then show ?thesis
    by (simp only: split_spec_def)
qed

lemma plain_quotes_prefix: "plain_quotes q e a (xs @ ys) \<Longrightarrow> plain_quotes q e a xs"
  by (induction xs arbitrary: q e a) simp_all

lemma plain_quotes_leading:
  "list_all is_space ws \<Longrightarrow> plain_quotes q False False (ws @ s) \<Longrightarrow> plain_quotes q False False s"
proof (induction ws)
  case Nil
  then show ?case by simp
next
  case (Cons c ws)
  have c: "is_space c" and ws: "list_all is_space ws"
    using Cons.prems(1) by simp_all
  have "plain_quotes q False False (ws @ s)"
    using Cons.prems(2) space_char [OF c] by (simp add: quote_after_space [OF c])
  then show ?case
    by (rule Cons.IH [OF ws])
qed

lemma plain_quotes_strip:
  assumes "plain_quotes None False False s"
  shows "plain_quotes None False False (py_strip s)"
proof -
  obtain ws1 ws2 where s: "s = ws1 @ py_strip s @ ws2" and w: "list_all is_space ws1"
    using py_strip_split by blast
  have "plain_quotes None False False (ws1 @ py_strip s @ ws2)"
    using assms s by simp
  then have "plain_quotes None False False (py_strip s @ ws2)"
    by (rule plain_quotes_leading [OF w])
  then show ?thesis
    by (rule plain_quotes_prefix)
qed

lemma split_spec_Nil: "split_spec [] = []"
  by (simp add: split_spec_def py_strip_Nil)

subsection \<open>The examples\<close>

lemma split_example_parens: "split_selectors ''a, b(x,y), c'' = [''a'', ''b(x,y)'', ''c'']"
  by code_simp

lemma split_example_quoted:
  "split_selectors (''a[title='' @ [CHR 0x22] @ ''x,y'' @ [CHR 0x22] @ ''], b'')
     = [''a[title='' @ [CHR 0x22] @ ''x,y'' @ [CHR 0x22] @ '']'', ''b'']"
  by code_simp

lemma split_spec_examples:
  "split_spec ''a, b(x,y), c'' = [''a'', ''b(x,y)'', ''c'']"
  "split_spec (''a[title='' @ [CHR 0x22] @ ''x,y'' @ [CHR 0x22] @ ''], b'')
     = [''a[title='' @ [CHR 0x22] @ ''x,y'' @ [CHR 0x22] @ '']'', ''b'']"
  by code_simp+

text \<open>
  Claim C3 fails on the code. In the clause \<^verbatim>\<open>[x="a\\"], [y="b],c"]\<close> the only comma
  at depth 0 outside a string literal is the one between the two attribute
  selectors, and cutting there gives the two selectors. \<^verbatim>\<open>split_selectors\<close> takes
  the quote that ends the first literal for an escaped one, because a backslash
  stands before it, stays inside a string up to the quote that opens the second
  literal, and cuts at the comma inside that literal.
\<close>

theorem split_selectors_escaped_backslash:
  "split_selectors escaped_backslash_clause
     = [''[x='' @ [CHR 0x22] @ ''a'' @ [CHR 0x5C, CHR 0x5C] @ [CHR 0x22] @ ''], [y='' @
          [CHR 0x22] @ ''b]'',
        ''c'' @ [CHR 0x22] @ '']'']
   \<and> split_spec escaped_backslash_clause
     = [''[x='' @ [CHR 0x22] @ ''a'' @ [CHR 0x5C, CHR 0x5C] @ [CHR 0x22] @ '']'',
        ''[y='' @ [CHR 0x22] @ ''b],c'' @ [CHR 0x22] @ '']'']"
  by code_simp


section \<open>Blank lines of the generated text\<close>

lemma triple_skip: "c \<noteq> CHR 0x0A \<Longrightarrow> has_triple_newline (c # t) = has_triple_newline t"
  by (cases t rule: has_triple_newline.cases) auto

lemma triple_skip2:
  "c \<noteq> CHR 0x0A \<Longrightarrow> has_triple_newline (a # c # t) = has_triple_newline t"
  by (cases t) (simp_all add: triple_skip)

lemma triple_skip3:
  "c \<noteq> CHR 0x0A \<Longrightarrow> has_triple_newline (a # b # c # t) = has_triple_newline t"
  by (simp add: triple_skip2)

lemma triple_short_run:
  "c \<noteq> CHR 0x0A \<Longrightarrow> n \<le> 2 \<Longrightarrow>
   has_triple_newline (replicate n (CHR 0x0A) @ c # t) = has_triple_newline t"
proof -
  assume c: "c \<noteq> CHR 0x0A" and n: "n \<le> 2"
  from n consider "n = 0" | "n = 1" | "n = 2" by linarith
  then show ?thesis
  proof cases
    case 1 then show ?thesis using c by (simp add: triple_skip)
  next
    case 2 then show ?thesis using c by (simp add: triple_skip2)
  next
    case 3
    have "replicate n (CHR 0x0A) = [CHR 0x0A, CHR 0x0A]"
      using 3 by (simp add: numeral_2_eq_2)
    then show ?thesis using c by (simp add: triple_skip2)
  qed
qed

lemma triple_replicate: "n \<le> 2 \<Longrightarrow> \<not> has_triple_newline (replicate n (CHR 0x0A))"
proof -
  assume n: "n \<le> 2"
  from n consider "n = 0" | "n = 1" | "n = 2" by linarith
  then show ?thesis
    by cases (simp_all add: numeral_2_eq_2)
qed

lemma collapse_no_triple: "\<not> has_triple_newline (collapse_newlines k s)"
proof (induction s arbitrary: k)
  case Nil
  show ?case by (simp add: triple_replicate)
next
  case (Cons c cs)
  show ?case
  proof (cases "c = CHR 0x0A")
    case True
    then show ?thesis using Cons.IH [of "Suc k"] by simp
  next
    case False
    then show ?thesis using Cons.IH [of 0] by (simp add: triple_short_run)
  qed
qed

lemma endswith_newline: "endswith s [CHR 0x0A] = (s \<noteq> [] \<and> last s = CHR 0x0A)"
proof (cases s rule: rev_cases)
  case Nil
  then show ?thesis by (simp add: endswith_def)
next
  case (snoc ys y)
  then show ?thesis by (auto simp: endswith_def)
qed

lemma triple_snoc:
  "has_triple_newline (s @ [CHR 0x0A]) \<Longrightarrow>
   has_triple_newline s \<or> (s \<noteq> [] \<and> last s = CHR 0x0A)"
proof (induction s rule: has_triple_newline.induct)
  case (1 a b c r)
  then show ?case by auto
next
  case (2 a b)
  then show ?case by auto
next
  case (3 a)
  then show ?case by auto
next
  case 4
  then show ?case by auto
qed

lemma finish_no_triple: "\<not> has_triple_newline (finish s)"
  using collapse_no_triple [of 0 s] triple_snoc [of "collapse_newlines 0 s"]
  by (auto simp: finish_def Let_def endswith_newline)

lemma finish_last: "finish s \<noteq> [] \<and> last (finish s) = CHR 0x0A"
  by (auto simp: finish_def Let_def endswith_newline)

text \<open>
  Claim C5, as amended. For every store, the text returned by \<^verbatim>\<open>generate_output\<close>
  has no run of three or more line feeds and its last character is a line feed.
  It need not end with exactly one line feed: the text generated for the empty
  stylesheet ends with two.
\<close>

theorem generate_output_newlines:
  "\<not> has_triple_newline (generate_output c) \<and> generate_output c \<noteq> [] \<and>
   last (generate_output c) = CHR 0x0A"
  using finish_no_triple [of "assembled c"] finish_last [of "assembled c"]
  by (simp add: generate_output_def)

theorem generate_output_newlines_witness:
  "\<not> has_triple_newline (generate_output init_compiler) \<and> generate_output init_compiler \<noteq> [] \<and>
   last (generate_output init_compiler) = CHR 0x0A"
  using generate_output_newlines [of init_compiler] by simp

text \<open>
  The claim as stated fails on the empty stylesheet: the banner ends with two line
  feeds, which are kept, so the character before the final line feed is a line feed.
\<close>

theorem empty_stylesheet_two_newlines:
  "last (compile False True []) = CHR 0x0A \<and> last (butlast (compile False True [])) = CHR 0x0A"
  by code_simp


section \<open>At-rules nested in a media block\<close>







section \<open>Alphabetical ordering in safe mode\<close>

lemma od_set_absent: "k \<notin> fst ` set d \<Longrightarrow> od_set k v d = d @ [(k, v)]"
  unfolding od_set_def by (induction d) auto

lemma od_update_distinct:
  "distinct (map fst (d @ items)) \<Longrightarrow> od_update d items = d @ items"
proof (induction items arbitrary: d)
  case Nil
  then show ?case by (simp add: od_update_def)
next
  case (Cons kv items)
  have absent: "fst kv \<notin> fst ` set d"
    using Cons.prems by auto
  have "od_update d (kv # items) = od_update (od_set (fst kv) (snd kv) d) items"
    by (simp add: od_update_def)
  also have "\<dots> = od_update (d @ [kv]) items"
    using absent by (simp add: od_set_absent)
  also have "\<dots> = (d @ [kv]) @ items"
    using Cons.prems by (intro Cons.IH) simp
  finally show ?case by simp
qed

lemma od_of_distinct: "distinct (map fst items) \<Longrightarrow> od_of items = items"
  using od_update_distinct [of "[]" items] by (simp add: od_of_def)

lemma distinct_map_filter': "distinct (map f xs) \<Longrightarrow> distinct (map f (filter P xs))"
  by (induction xs) auto

lemma distinct_map_insort_key:
  "distinct (map g (insort_key f x xs)) = (g x \<notin> g ` set xs \<and> distinct (map g xs))"
  by (induction xs) (auto simp: set_insort_key)

lemma distinct_map_sort_key: "distinct (map g (sort_key f xs)) = distinct (map g xs)"
  by (induction xs) (simp_all add: distinct_map_insort_key)

lemma sort_scope_safe_distinct:
  assumes "distinct (map fst rs)"
  shows "sort_scope_safe rs =
           filter (\<lambda>x. is_dangerous (fst x)) rs @
           sort_key (\<lambda>x. py_lower (fst x)) (filter (\<lambda>x. \<not> is_dangerous (fst x)) rs)"
proof -
  let ?D = "filter (\<lambda>x. is_dangerous (fst x)) rs"
  let ?S = "filter (\<lambda>x. \<not> is_dangerous (fst x)) rs"
  let ?T = "sort_key (\<lambda>x. py_lower (fst x)) ?S"
  have dD: "distinct (map fst ?D)" and dS: "distinct (map fst ?S)"
    using assms by (simp_all add: distinct_map_filter')
  have dT: "distinct (map fst ?T)"
    using dS by (simp add: distinct_map_sort_key)
  have disj: "fst ` set ?D \<inter> fst ` set ?T = {}"
    by auto
  have dDT: "distinct (map fst (?D @ ?T))"
    using dD dT disj by simp
  show ?thesis
    using dDT by (simp add: sort_scope_safe_def Let_def od_of_distinct dD dS dT
        sorted_by_lower_def od_update_distinct)
qed

lemma safely_sorted_sort_scope:
  assumes "distinct (map fst rs)"
  shows "safely_sorted rs (sort_scope_safe rs)"
proof -
  let ?D = "filter (\<lambda>x. is_dangerous (fst x)) rs"
  let ?S = "filter (\<lambda>x. \<not> is_dangerous (fst x)) rs"
  let ?T = "sort_key (\<lambda>x. py_lower (fst x)) ?S"
  have eq: "sort_scope_safe rs = ?D @ ?T"
    by (rule sort_scope_safe_distinct [OF assms])
  have a: "filter is_dangerous (map fst (?D @ ?T)) = filter is_dangerous (map fst rs)"
    by (simp add: filter_map comp_def filter_sort)
  have "filter (\<lambda>sel. \<not> is_dangerous sel) (map fst (?D @ ?T)) = map fst ?T"
    by (simp add: filter_map comp_def filter_sort)
  moreover have "sorted (map py_lower (map fst ?T))"
    using sorted_sort_key [of "\<lambda>x. py_lower (fst x)" ?S] by (simp add: comp_def)
  ultimately have b: "sorted (map py_lower (filter (\<lambda>sel. \<not> is_dangerous sel) (map fst (?D @ ?T))))"
    by simp
  have c: "mset (?D @ ?T) = mset rs"
    by simp
  show ?thesis
    unfolding safely_sorted_def eq using a b c by blast
qed


lemma od_modify_keys: "map fst (od_modify k f d) = map fst d"
  by (induction d) (auto simp: od_modify_def)

lemma property_step_keys: "map fst (fst (property_step sel pv acc)) = map fst (fst acc)"
  by (simp add: property_step_def od_modify_keys)

lemma fold_property_step_keys:
  "map fst (fst (fold (property_step sel) props acc)) = map fst (fst acc)"
  by (induction props arbitrary: acc) (simp_all add: property_step_keys)

lemma selector_step_distinct:
  assumes "distinct (map fst (fst acc))"
  shows "distinct (map fst (fst (selector_step props sel0 acc)))"
proof (cases "py_strip sel0 = []")
  case True
  then show ?thesis using assms by (simp add: selector_step_def)
next
  case False
  show ?thesis
  proof (cases "od_has (fst acc) (py_strip sel0)")
    case True
    then show ?thesis
      using assms False by (simp add: selector_step_def Let_def fold_property_step_keys)
  next
    case absent: False
    then have "py_strip sel0 \<notin> fst ` set (fst acc)"
      by (simp add: od_has_def)
    then show ?thesis
      using assms False absent
      by (simp add: selector_step_def Let_def fold_property_step_keys od_set_absent)
  qed
qed

lemma fold_selector_step_distinct:
  "distinct (map fst (fst acc)) \<Longrightarrow>
   distinct (map fst (fst (fold (selector_step props) sels acc)))"
  by (induction sels arbitrary: acc) (simp_all add: selector_step_distinct)

lemma set_od_set: "x \<in> set (od_set k v d) \<Longrightarrow> x = (k, v) \<or> x \<in> set d"
  unfolding od_set_def by (induction d) (auto split: if_splits)

lemma od_get_distinct:
  "list_all (\<lambda>m. distinct (map fst (snd m))) mq \<Longrightarrow>
   distinct (map fst (case od_get mq m of None \<Rightarrow> [] | Some t \<Rightarrow> t))"
  by (auto simp: od_get_def list_all_iff split: option.splits dest!: map_of_SomeD)

lemma od_set_all_distinct:
  "list_all (\<lambda>m. distinct (map fst (snd m))) mq \<Longrightarrow> distinct (map fst sc) \<Longrightarrow>
   list_all (\<lambda>m. distinct (map fst (snd m))) (od_set k sc mq)"
  by (auto simp: list_all_iff dest!: set_od_set)

lemma process_qualified_rule_ok:
  assumes "store_ok c"
  shows "store_ok (process_qualified_rule prelude decls mc c)"
proof -
  let ?st1 = "(stats c)\<lparr>stat_rules_parsed := stat_rules_parsed (stats c) + 1\<rparr>"
  let ?parsed = "parse_declaration_block decls ?st1"
  let ?sels = "split_selectors (py_strip (serialize_tokens prelude))"
  have top: "store_ok (c\<lparr>rules := fst (fold (selector_step (fst ?parsed)) ?sels (rules c, snd ?parsed)),
                         stats := st\<rparr>)" for st
    using assms fold_selector_step_distinct [of "(rules c, snd ?parsed)" "fst ?parsed" ?sels]
    by (simp add: store_ok_def)
  have med: "store_ok (c\<lparr>media_queries := od_set m
                 (fst (fold (selector_step (fst ?parsed)) ?sels
                    (case od_get (media_queries c) m of None \<Rightarrow> [] | Some t \<Rightarrow> t, snd ?parsed)))
                 (media_queries c), stats := st\<rparr>)" for m st
    using assms
      fold_selector_step_distinct [of "(case od_get (media_queries c) m of None \<Rightarrow> [] | Some t \<Rightarrow> t, snd ?parsed)"
        "fst ?parsed" ?sels]
    by (simp add: store_ok_def od_set_all_distinct od_get_distinct)
  have plain: "store_ok (c\<lparr>stats := st\<rparr>)" for st
    using assms by (simp add: store_ok_def)
  show ?thesis
    unfolding process_qualified_rule_def Let_def
    using top med plain by (simp split: option.splits)
qed

lemma media_child_ok: "store_ok c \<Longrightarrow> store_ok (media_child m n c)"
  by (cases n) (simp_all add: media_child_def process_qualified_rule_ok)

lemma fold_media_child_ok: "store_ok c \<Longrightarrow> store_ok (fold (media_child m) ns c)"
  by (induction ns arbitrary: c) (simp_all add: media_child_ok)

lemma process_at_rule_ok:
  assumes "store_ok c"
  shows "store_ok (process_at_rule kw prelude children txt c)"
proof -
  have "store_ok (c\<lparr>stats := st\<rparr>)" for st
    using assms by (simp add: store_ok_def)
  moreover have "store_ok (c\<lparr>stats := st, at_rules := ars\<rparr>)" for st ars
    using assms by (simp add: store_ok_def)
  ultimately show ?thesis
    unfolding process_at_rule_def Let_def
    by (simp add: fold_media_child_ok)
qed

lemma process_node_ok:
  assumes "store_ok c"
  shows "store_ok (process_node n c)"
proof (cases n)
  case (QualifiedRule prelude decls)
  then show ?thesis
    using assms by (simp add: process_node_def process_qualified_rule_ok)
next
  case (AtRule kw prelude children tx)
  then show ?thesis
    using assms by (simp add: process_node_def process_at_rule_ok)
next
  case ParseError
  then show ?thesis
    using assms by (simp add: process_node_def store_ok_def)
qed

lemma process_stylesheet_ok: "store_ok c \<Longrightarrow> store_ok (process_stylesheet ss c)"
  unfolding process_stylesheet_def
  by (induction ss arbitrary: c) (simp_all add: process_node_ok)

lemma init_compiler_ok: "store_ok init_compiler"
  by (simp add: store_ok_def init_compiler_def)

lemma list_all2_map_same:
  "list_all (\<lambda>x. P x (f x)) xs \<Longrightarrow> list_all2 P xs (map f xs)"
  by (induction xs) simp_all

text \<open>
  Claim C7. With alphabetical ordering enabled and safe mode on, in the top-level
  scope and in the scope of every media condition, the selectors that contain one
  of \<^verbatim>\<open>:link :visited :hover :focus :active :first-child :last-child :nth-\<close> keep
  their relative source order, the other selectors are ordered by their lower-cased
  text, and no rule is lost or added.
\<close>

theorem safe_sort_keeps_dangerous_order:
  "safely_sorted (rules (process_stylesheet ss init_compiler)) (rules (compile_store True True ss))
   \<and> list_all2 (\<lambda>before after. fst after = fst before \<and> safely_sorted (snd before) (snd after))
        (media_queries (process_stylesheet ss init_compiler))
        (media_queries (compile_store True True ss))"
proof -
  let ?c = "process_stylesheet ss init_compiler"
  have ok: "store_ok ?c"
    by (rule process_stylesheet_ok [OF init_compiler_ok])
  have after: "compile_store True True ss = sort_rules True ?c"
    by (simp add: compile_store_def)
  have top: "safely_sorted (rules ?c) (sort_scope_safe (rules ?c))"
    using ok by (simp add: store_ok_def safely_sorted_sort_scope)
  have "list_all (\<lambda>m. fst (fst m, sort_scope_safe (snd m)) = fst m \<and>
                      safely_sorted (snd m) (snd (fst m, sort_scope_safe (snd m))))
          (media_queries ?c)"
    using ok by (simp add: store_ok_def list_all_iff safely_sorted_sort_scope)
  then have med: "list_all2 (\<lambda>before after. fst after = fst before \<and>
                     safely_sorted (snd before) (snd after))
          (media_queries ?c) (map (\<lambda>m. (fst m, sort_scope_safe (snd m))) (media_queries ?c))"
    by (rule list_all2_map_same)
  show ?thesis
    unfolding after using top med by (simp add: sort_rules_def)
qed

theorem safe_sort_keeps_dangerous_order_witness:
  "safely_sorted
     (rules (process_stylesheet
        [QualifiedRule ''b, a:hover, Zed, a:focus, and'' [Declaration ''x'' ''1'' False]]
        init_compiler))
     (rules (compile_store True True
        [QualifiedRule ''b, a:hover, Zed, a:focus, and'' [Declaration ''x'' ''1'' False]]))"
  using safe_sort_keeps_dangerous_order
    [of "[QualifiedRule ''b, a:hover, Zed, a:focus, and'' [Declaration ''x'' ''1'' False]]"]
  by simp

lemma safe_sort_example:
  "map fst (rules (compile_store True True
      [QualifiedRule ''b, a:hover, Zed, a:focus, and'' [Declaration ''x'' ''1'' False]]))
   = [''a:hover'', ''a:focus'', ''and'', ''b'', ''Zed'']"
  by code_simp


section \<open>The media-query scenario\<close>

text \<open>
  Claim C2, as amended. For the stylesheet with the media conditions
  \<^verbatim>\<open>(min-width: 1200px)\<close>, \<^verbatim>\<open>(max-width: 480px)\<close>, \<^verbatim>\<open>print\<close>,
  \<^verbatim>\<open>(prefers-color-scheme: dark)\<close> and \<^verbatim>\<open>(max-width: 900px)\<close>, the generated text has
  the desktop section with the 1200px query, then the mobile section with the 480px
  query alone, then the user-preference section, then the print section, which
  ends the document; the 900px query is classified as tablet, not as mobile.
\<close>

theorem scenario_output:
  "compile False True scenario =
     banner @ text_lines [''/* ===== MEDIA QUERIES ===== */'', '''', ''/* --- DESKTOP --- */''] @
     media_block ''(min-width:1200px)'' @
     text_lines [''/* --- MOBILE --- */''] @
     media_block ''(max-width:480px)'' @
     text_lines [''/* --- PR'' @ [CHR 0xC9] @ ''F'' @ [CHR 0xC9] @ ''RENCES UTILISATEUR --- */''] @
     media_block ''(prefers-color-scheme:dark)'' @
     text_lines [''/* --- PRINT --- */''] @
     media_block ''print''
   \<and> classify (normalize_condition ''(max-width: 900px)'') = Tablet"
  by code_simp

text \<open>
  The claim as stated fails: the text generated for the scenario has no 900px query
  at all, so none in the mobile section after the 480px query.
\<close>

theorem scenario_900px_absent: "\<not> contains (compile False True scenario) ''900px''"
  by code_simp

section \<open>Compiling the generated text again\<close>

text \<open>
  Claim C6 fails on the code. The stylesheet \<^verbatim>\<open>@media (max-width: 900px) { a { color: red } }\<close>
  compiles to the banner followed by the heading of the media queries and no query,
  the tablet group being written nowhere. That text is made of comments only; the
  parser yields no node for it, and the empty stylesheet compiles to the banner
  alone, a different text.
\<close>

theorem tablet_only_recompiled_differs:
  "compile False True [media_rule ''(max-width: 900px)'']
     = banner @ text_lines [''/* ===== MEDIA QUERIES ===== */'']
   \<and> only_comments False (compile False True [media_rule ''(max-width: 900px)''])
   \<and> compile False True [] = banner
   \<and> compile False True [] \<noteq> compile False True [media_rule ''(max-width: 900px)'']"
  by code_simp


section \<open>The order of the queries inside a section\<close>

lemma insort_key_map:
  "insort_key f (g x) (map g ys) = map g (insort_key (\<lambda>y. f (g y)) x ys)"
  by (induction ys) simp_all

lemma sort_key_map: "sort_key f (map g xs) = map g (sort_key (\<lambda>y. f (g y)) xs)"
  by (induction xs) (simp_all add: insort_key_map)

lemma section_order_sort:
  "section_order qs = sort_key (\<lambda>cr. width_sort_key (fst cr)) qs"
  by (simp add: section_order_def sorted_queries_def sort_key_map comp_def)

lemma key_le_may_precede:
  "width_sort_key c1 \<le> width_sort_key c2 \<Longrightarrow> may_precede c1 c2"
  by (auto simp: width_sort_key_def may_precede_def split: option.splits if_splits prod.splits)

lemma section_order_sorted: "sorted_wrt may_precede (map fst (section_order qs))"
proof -
  have "sorted (map (\<lambda>cr. width_sort_key (fst cr)) (section_order qs))"
    unfolding section_order_sort by (rule sorted_sort_key)
  then have "sorted_wrt (\<lambda>a b. width_sort_key (fst a) \<le> width_sort_key (fst b)) (section_order qs)"
    by (simp add: sorted_wrt_map)
  then have "sorted_wrt (\<lambda>a b. may_precede (fst a) (fst b)) (section_order qs)"
    by (rule sorted_wrt_mono_rel [rotated]) (simp add: key_le_may_precede)
  then show ?thesis
    by (simp add: sorted_wrt_map)
qed

text \<open>
  Claim C8, as amended. A desktop, mobile or other section writes its queries in
  ascending order of the sort key, which is minus the width for a condition whose
  first width is a \<^verbatim>\<open>max-width\<close>, the width for a \<^verbatim>\<open>min-width\<close> and zero for a
  condition without a width; the sort is stable and loses no query. So the
  \<^verbatim>\<open>max-width\<close> conditions come first, by descending width, then the conditions
  without a width, then the \<^verbatim>\<open>min-width\<close> conditions by ascending width.
\<close>

theorem section_sorted_by_width_key:
  "width_section section_name qs =
     (if qs = [] then []
      else [CHR 0x0A] @ ''/* '' @ section_name @ '' */'' @ [CHR 0x0A] @
           concat (map emit_query (section_order qs)))
   \<and> sorted_wrt may_precede (map fst (section_order qs))
   \<and> sorted (map (\<lambda>cr. width_sort_key (fst cr)) (section_order qs))
   \<and> mset (section_order qs) = mset qs
   \<and> filter (\<lambda>cr. width_sort_key (fst cr) = k) (section_order qs)
       = filter (\<lambda>cr. width_sort_key (fst cr) = k) qs"
proof -
  have a: "width_section section_name qs =
     (if qs = [] then []
      else [CHR 0x0A] @ ''/* '' @ section_name @ '' */'' @ [CHR 0x0A] @
           concat (map emit_query (section_order qs)))"
    by (simp add: width_section_def section_order_def comp_def)
  have b: "sorted (map (\<lambda>cr. width_sort_key (fst cr)) (section_order qs))"
    unfolding section_order_sort by (rule sorted_sort_key)
  have c: "mset (section_order qs) = mset qs"
    unfolding section_order_sort by simp
  have d: "filter (\<lambda>cr. width_sort_key (fst cr) = k) (section_order qs)
       = filter (\<lambda>cr. width_sort_key (fst cr) = k) qs"
    unfolding section_order_sort by (rule sort_key_stable)
  show ?thesis
    using a b c d section_order_sorted [of qs] by blast
qed

theorem section_sorted_by_width_key_witness:
  "sorted_wrt may_precede
     (map fst (section_order [(''screen'', []), (''(min-width:100px)'', []), (''(max-width:1200px)'', []),
                              (''(max-width:1400px)'', [])]))
   \<and> map fst (section_order [(''screen'', []), (''(min-width:100px)'', []), (''(max-width:1200px)'', []),
                              (''(max-width:1400px)'', [])])
       = [''(max-width:1400px)'', ''(max-width:1200px)'', ''screen'', ''(min-width:100px)'']"
proof -
  have "map fst (section_order [(''screen'', []), (''(min-width:100px)'', []), (''(max-width:1200px)'', []),
                              (''(max-width:1400px)'', [])])
       = [''(max-width:1400px)'', ''(max-width:1200px)'', ''screen'', ''(min-width:100px)'']"
    by code_simp
  then show ?thesis
    using section_sorted_by_width_key
      [of "[]" "[(''screen'', []), (''(min-width:100px)'', []), (''(max-width:1200px)'', []),
                              (''(max-width:1400px)'', [])]" 0]
    by blast
qed

text \<open>
  The claim as stated fails: a condition without a width is not placed first in its
  group. In the section of the other queries, \<^verbatim>\<open>(max-width: 1200px)\<close> has the key
  -1200 and is written before \<^verbatim>\<open>screen\<close>, whose key is 0.
\<close>

theorem no_width_after_max_width:
  "compile False True [media_rule ''screen'', media_rule ''(max-width: 1200px)'']
     = banner @ text_lines [''/* ===== MEDIA QUERIES ===== */'', '''', ''/* --- AUTRES --- */''] @
       media_block ''(max-width:1200px)'' @ media_block ''screen''
   \<and> search_width ''screen'' = None
   \<and> search_width ''(max-width:1200px)'' = Some (True, 1200)"
  by code_simp


section \<open>The tablet group\<close>

lemma startswith_append: "startswith s (p @ q) \<Longrightarrow> startswith s p"
  by (induction s p rule: startswith.induct) auto

lemma startswith_contains: "startswith s p \<Longrightarrow> contains s p"
  by (cases s) (auto elim: startswith.elims)

lemma match_width_startswith: "match_width key s = Some w \<Longrightarrow> startswith s key"
  by (simp add: match_width_def split: if_splits)

lemma search_max_width_contains:
  "search_max_width s = Some w \<Longrightarrow> contains s ''max-width''"
proof (induction s)
  case Nil
  then show ?case by simp
next
  case (Cons c cs)
  show ?case
  proof (cases "match_width ''max-width:'' (c # cs)")
    case None
    then show ?thesis using Cons by simp
  next
    case (Some v)
    then have "startswith (c # cs) (''max-width'' @ '':'')"
      using match_width_startswith by fastforce
    then have "startswith (c # cs) ''max-width''"
      by (rule startswith_append)
    then show ?thesis
      by (simp del: startswith.simps)
  qed
qed

lemma classify_tablet:
  assumes "\<not> contains n ''print''" "\<not> contains n ''prefers-''"
    "search_max_width n = Some w" "768 < w" "w \<le> 1024"
  shows "classify n = Tablet"
  using assms search_max_width_contains [OF assms(3)]
  by (simp add: classify_def)

lemma same_but_od_set:
  "same_but n xs ys \<Longrightarrow> (k \<noteq> n \<longrightarrow> v = v') \<Longrightarrow> same_but n (od_set k v xs) (od_set k v' ys)"
  unfolding same_but_def od_set_def
  by (induction xs ys rule: list_all2_induct) auto

lemma same_but_od_get:
  "same_but n xs ys \<Longrightarrow> k \<noteq> n \<Longrightarrow> od_get xs k = od_get ys k"
  unfolding same_but_def od_get_def
  by (induction xs ys rule: list_all2_induct) auto

lemma same_but_step:
  assumes "same_but n xs ys"
  shows "same_but n (merge_query_step cr xs)
           (merge_query_step (if normalize_condition (fst cr) = n then (fst cr, f cr) else cr) ys)"
proof (cases "normalize_condition (fst cr) = n")
  case True
  then show ?thesis
    using assms by (simp add: merge_query_step_def Let_def same_but_od_set)
next
  case False
  then show ?thesis
    using assms same_but_od_get [OF assms False]
    by (simp add: merge_query_step_def Let_def same_but_od_set)
qed

lemma same_but_fold:
  "same_but n xs ys \<Longrightarrow>
   same_but n (fold merge_query_step mq xs)
     (fold merge_query_step
        (map (\<lambda>m. if normalize_condition (fst m) = n then (fst m, f m) else m) mq) ys)"
proof (induction mq arbitrary: xs ys)
  case Nil
  then show ?case by simp
next
  case (Cons cr mq)
  have "same_but n (merge_query_step cr xs)
           (merge_query_step (if normalize_condition (fst cr) = n then (fst cr, f cr) else cr) ys)"
    by (rule same_but_step [OF Cons.prems])
  then show ?case
    using Cons.IH by simp
qed

lemma same_but_filter:
  "same_but n xs ys \<Longrightarrow> classify n \<noteq> g \<Longrightarrow>
   filter (\<lambda>cr. classify (fst cr) = g) xs = filter (\<lambda>cr. classify (fst cr) = g) ys"
  unfolding same_but_def
  by (induction xs ys rule: list_all2_induct) (auto simp: prod_eq_iff)

lemma media_section_ignores_tablet:
  assumes "classify n = Tablet"
  shows "media_section (map (\<lambda>m. if normalize_condition (fst m) = n then (fst m, f m) else m) mq)
           = media_section mq"
proof -
  let ?mq' = "map (\<lambda>m. if normalize_condition (fst m) = n then (fst m, f m) else m) mq"
  have rel: "same_but n (merged_queries mq) (merged_queries ?mq')"
    unfolding merged_queries_def by (rule same_but_fold) (simp add: same_but_def)
  have q: "queries_of g (merged_queries ?mq') = queries_of g (merged_queries mq)" if "g \<noteq> Tablet" for g
    using same_but_filter [OF rel, of g] that assms by (simp add: queries_of_def)
  show ?thesis
    by (simp add: media_section_def Let_def q)
qed

text \<open>
  Claim C9, as amended. Let \<open>n\<close> be a normalized media condition that contains
  neither \<^verbatim>\<open>print\<close> nor \<^verbatim>\<open>prefers-\<close> and whose extracted \<^verbatim>\<open>max-width\<close> value
  \<open>w\<close> satisfies 768 < w <= 1024. Then \<open>n\<close> is classified into the tablet group, and
  the generated text does not depend on the rules stored under the conditions that
  normalize to \<open>n\<close>: whatever is stored there instead, the text is the same.
\<close>

theorem tablet_rules_not_emitted:
  assumes "\<not> contains n ''print''" "\<not> contains n ''prefers-''"
    "search_max_width n = Some w" "768 < w" "w \<le> 1024"
  shows "classify n = Tablet \<and>
         generate_output
           (c\<lparr>media_queries :=
                 map (\<lambda>m. if normalize_condition (fst m) = n then (fst m, f m) else m)
                     (media_queries c)\<rparr>)
           = generate_output c"
  using classify_tablet [OF assms] media_section_ignores_tablet [OF classify_tablet [OF assms], of f]
  by (simp add: generate_output_def assembled_def)

theorem tablet_rules_not_emitted_witness:
  "classify ''(max-width:900px)'' = Tablet \<and>
   generate_output
     ((compile_store False True [media_rule ''(max-width: 900px)'', media_rule ''screen''])
        \<lparr>media_queries :=
            map (\<lambda>m. if normalize_condition (fst m) = ''(max-width:900px)'' then (fst m, []) else m)
              (media_queries
                 (compile_store False True [media_rule ''(max-width: 900px)'', media_rule ''screen'']))\<rparr>)
     = generate_output (compile_store False True [media_rule ''(max-width: 900px)'', media_rule ''screen''])"
proof -
  have h1: "\<not> contains ''(max-width:900px)'' ''print''" by code_simp
  have h2: "\<not> contains ''(max-width:900px)'' ''prefers-''" by code_simp
  have h3: "search_max_width ''(max-width:900px)'' = Some 900" by code_simp
  have h4: "(768::nat) < 900" by simp
  have h5: "(900::nat) \<le> 1024" by simp
  show ?thesis
    by (rule tablet_rules_not_emitted [OF h1 h2 h3 h4 h5])
qed

text \<open>
  The claim as stated fails for a condition that also contains \<^verbatim>\<open>print\<close> (or
  \<^verbatim>\<open>prefers-\<close>): these tests come first, so \<^verbatim>\<open>print and (max-width: 900px)\<close> is a
  print query and its rules are written in the print section.
\<close>

theorem print_query_with_tablet_width_emitted:
  "compile False True [media_rule ''print and (max-width: 900px)'']
     = banner @ text_lines [''/* ===== MEDIA QUERIES ===== */'', '''', ''/* --- PRINT --- */''] @
       media_block ''print and(max-width:900px)''
   \<and> search_max_width (normalize_condition ''print and (max-width: 900px)'') = Some 900"
  by code_simp


section \<open>Keyframes at-rules\<close>

subsection \<open>The at-rules of the store\<close>

lemma pqr_at_rules: "at_rules (process_qualified_rule prelude decls mc c) = at_rules c"
  by (simp add: process_qualified_rule_def Let_def split: option.splits)

lemma media_child_at_rules: "at_rules (media_child m nd c) = at_rules c"
  by (cases nd) (simp_all add: media_child_def pqr_at_rules)

lemma fold_media_child_at_rules: "at_rules (fold (media_child m) ns c) = at_rules c"
  by (induction ns arbitrary: c) (simp_all add: media_child_at_rules)

lemma process_at_rule_at_rules:
  "at_rules (process_at_rule kw prelude children tx c) =
     (if kw = ''media'' then at_rules c
      else if kw = ''keyframes'' then
        (if list_ex (is_keyframe_named (py_strip (serialize_tokens prelude))) (at_rules c)
         then replace_first_content (py_strip (serialize_tokens prelude)) tx (at_rules c)
         else at_rules c @ [\<lparr>keyword = kw, name = Some (py_strip (serialize_tokens prelude)),
                               content = tx\<rparr>])
      else at_rules c @ [\<lparr>keyword = kw, name = None, content = tx\<rparr>])"
  by (simp add: process_at_rule_def Let_def fold_media_child_at_rules)

lemma process_node_at_rules: "at_rules (process_node nd c) = at_step nd (at_rules c)"
  by (cases nd) (simp_all add: at_step_def process_node_def pqr_at_rules process_at_rule_at_rules)

lemma process_stylesheet_at_rules:
  "at_rules (process_stylesheet ss c) = fold at_step ss (at_rules c)"
  unfolding process_stylesheet_def
  by (induction ss arbitrary: c) (simp_all add: process_node_at_rules)

lemma at_step_cases:
  "at_step (QualifiedRule prelude decls) ars = ars"
  "at_step ParseError ars = ars"
  "at_step (AtRule kw prelude children tx) ars =
     (if kw = ''media'' then ars
      else if kw = ''keyframes'' then
        (if list_ex (is_keyframe_named (py_strip (serialize_tokens prelude))) ars
         then replace_first_content (py_strip (serialize_tokens prelude)) tx ars
         else ars @ [\<lparr>keyword = kw, name = Some (py_strip (serialize_tokens prelude)),
                       content = tx\<rparr>])
      else ars @ [\<lparr>keyword = kw, name = None, content = tx\<rparr>])"
  by (simp_all add: at_step_def process_node_def pqr_at_rules process_at_rule_at_rules)

lemma at_step_not_keyframes:
  "\<not> (\<exists>m. keyframes_named m nd) \<Longrightarrow>
   \<exists>xs. at_step nd ars = ars @ xs \<and> (\<forall>e \<in> set xs. keyword e \<noteq> ''keyframes'')"
  by (cases nd) (auto simp: at_step_cases keyframes_named_def)

lemma at_step_keyframes:
  "keyframes_named m nd \<Longrightarrow>
   at_step nd ars =
     (if list_ex (is_keyframe_named m) ars then replace_first_content m (node_text nd) ars
      else ars @ [\<lparr>keyword = ''keyframes'', name = Some m, content = node_text nd\<rparr>])"
  by (cases nd) (auto simp: at_step_cases keyframes_named_def node_text_def)


subsection \<open>Replacing the content of an entry\<close>

lemma replace_first_kn:
  "map (\<lambda>e. (keyword e, name e)) (replace_first_content m t xs) = map (\<lambda>e. (keyword e, name e)) xs"
  by (induction xs) (simp_all add: is_keyframe_named_def)

lemma named_via_kn: "is_keyframe_named n e = (keyword e = ''keyframes'' \<and> name e = Some n)"
  by (simp add: is_keyframe_named_def)

lemma list_ex_named_kn:
  "list_ex (is_keyframe_named n) xs = ((''keyframes'', Some n) \<in> set (map (\<lambda>e. (keyword e, name e)) xs))"
  by (induction xs) (auto simp: is_keyframe_named_def)

lemma replace_first_list_ex:
  "list_ex (is_keyframe_named n) (replace_first_content m t xs) = list_ex (is_keyframe_named n) xs"
  by (simp only: list_ex_named_kn replace_first_kn)

lemma replace_first_length: "length (replace_first_content m t xs) = length xs"
  using arg_cong [OF replace_first_kn [of m t xs], of length] by simp

lemma replace_first_absent:
  "\<not> list_ex (is_keyframe_named m) xs \<Longrightarrow> replace_first_content m t xs = xs"
  by (induction xs) simp_all

lemma replace_first_append:
  "replace_first_content m t (xs @ ys) =
     (if list_ex (is_keyframe_named m) xs then replace_first_content m t xs @ ys
      else xs @ replace_first_content m t ys)"
  by (induction xs) simp_all

lemma replace_first_set:
  "e' \<in> set (replace_first_content m t xs) \<Longrightarrow>
   e' \<in> set xs \<or> (\<exists>e \<in> set xs. is_keyframe_named m e \<and> e' = e\<lparr>content := t\<rparr>)"
  by (induction xs) (auto split: if_splits)

subsection \<open>The entry of a name stays where it is\<close>

lemma latest_last:
  "latest n cur ss =
     (if filter (keyframes_named n) ss = [] then cur
      else node_text (last (filter (keyframes_named n) ss)))"
  unfolding latest_def
  by (induction ss rule: rev_induct) simp_all

lemma keyframes_named_unique: "keyframes_named m nd \<Longrightarrow> keyframes_named n nd \<Longrightarrow> m = n"
  by (cases nd) (simp_all add: keyframes_named_def)

lemma entry_stays_step:
  assumes "\<not> list_ex (is_keyframe_named n) A" "\<not> list_ex (is_keyframe_named n) B"
    "is_keyframe_named n e"
  shows "\<exists>A' B'. at_step nd (A @ e # B) =
            A' @ e\<lparr>content := (if keyframes_named n nd then node_text nd else content e)\<rparr> # B' \<and>
          length A' = length A \<and> \<not> list_ex (is_keyframe_named n) A' \<and>
          \<not> list_ex (is_keyframe_named n) B'"
proof (cases "\<exists>m. keyframes_named m nd")
  case False
  then obtain xs where xs: "at_step nd (A @ e # B) = (A @ e # B) @ xs"
    "\<forall>x \<in> set xs. keyword x \<noteq> ''keyframes''"
    using at_step_not_keyframes by blast
  have "\<not> keyframes_named n nd" using False by blast
  moreover have "\<not> list_ex (is_keyframe_named n) (B @ xs)"
    using assms(2) xs(2) by (auto simp: list_ex_iff is_keyframe_named_def)
  ultimately show ?thesis
    using xs(1) assms(1) by (intro exI [of _ A] exI [of _ "B @ xs"]) simp
next
  case True
  then obtain m where m: "keyframes_named m nd" by blast
  note step = at_step_keyframes [OF m, of "A @ e # B"]
  show ?thesis
  proof (cases "m = n")
    case same: True
    have ex: "list_ex (is_keyframe_named m) (A @ e # B)"
      using assms(3) same by simp
    have "at_step nd (A @ e # B) = A @ e\<lparr>content := node_text nd\<rparr> # B"
      using step ex assms(1,3) same by (simp add: replace_first_append)
    then show ?thesis
      using m same assms(1,2) by (intro exI [of _ A] exI [of _ B]) simp
  next
    case diff: False
    have notn: "\<not> keyframes_named n nd"
      using m diff keyframes_named_unique by blast
    have e_not_m: "\<not> is_keyframe_named m e"
      using assms(3) diff by (auto simp: is_keyframe_named_def)
    show ?thesis
    proof (cases "list_ex (is_keyframe_named m) (A @ e # B)")
      case False
      then have "at_step nd (A @ e # B) =
                   A @ e # (B @ [\<lparr>keyword = ''keyframes'', name = Some m, content = node_text nd\<rparr>])"
        using step by simp
      moreover have "\<not> list_ex (is_keyframe_named n)
                        (B @ [\<lparr>keyword = ''keyframes'', name = Some m, content = node_text nd\<rparr>])"
        using assms(2) diff by (simp add: is_keyframe_named_def)
      ultimately show ?thesis
        using notn assms(1)
        by (intro exI [of _ A]
              exI [of _ "B @ [\<lparr>keyword = ''keyframes'', name = Some m, content = node_text nd\<rparr>]"])
           simp
    next
      case True
      then have st: "at_step nd (A @ e # B) = replace_first_content m (node_text nd) (A @ e # B)"
        using step by simp
      show ?thesis
      proof (cases "list_ex (is_keyframe_named m) A")
        case inA: True
        have "at_step nd (A @ e # B) = replace_first_content m (node_text nd) A @ e # B"
          using st inA by (simp add: replace_first_append)
        then show ?thesis
          using notn assms(1,2)
          by (intro exI [of _ "replace_first_content m (node_text nd) A"] exI [of _ B])
             (simp add: replace_first_length replace_first_list_ex)
      next
        case notA: False
        have "at_step nd (A @ e # B) = A @ e # replace_first_content m (node_text nd) B"
          using st notA e_not_m by (simp add: replace_first_append)
        then show ?thesis
          using notn assms(1,2)
          by (intro exI [of _ A] exI [of _ "replace_first_content m (node_text nd) B"])
             (simp add: replace_first_list_ex)
      qed
    qed
  qed
qed

lemma entry_stays:
  assumes "\<not> list_ex (is_keyframe_named n) A" "\<not> list_ex (is_keyframe_named n) B"
    "is_keyframe_named n e"
  shows "\<exists>A' B'. fold at_step ss (A @ e # B) = A' @ e\<lparr>content := latest n (content e) ss\<rparr> # B' \<and>
          length A' = length A \<and> \<not> list_ex (is_keyframe_named n) A' \<and>
          \<not> list_ex (is_keyframe_named n) B'"
  using assms
proof (induction ss arbitrary: A B e)
  case Nil
  then show ?case by (auto simp: latest_def)
next
  case (Cons nd ss)
  let ?e = "e\<lparr>content := (if keyframes_named n nd then node_text nd else content e)\<rparr>"
  obtain A1 B1 where s1: "at_step nd (A @ e # B) = A1 @ ?e # B1" "length A1 = length A"
    "\<not> list_ex (is_keyframe_named n) A1" "\<not> list_ex (is_keyframe_named n) B1"
    using entry_stays_step [OF Cons.prems] by blast
  have ne: "is_keyframe_named n ?e"
    using Cons.prems(3) by (simp add: is_keyframe_named_def)
  obtain A2 B2 where s2: "fold at_step ss (A1 @ ?e # B1) = A2 @ ?e\<lparr>content := latest n (content ?e) ss\<rparr> # B2"
    "length A2 = length A1" "\<not> list_ex (is_keyframe_named n) A2" "\<not> list_ex (is_keyframe_named n) B2"
    using Cons.IH [OF s1(3) s1(4) ne] by blast
  have "latest n (content ?e) ss = latest n (content e) (nd # ss)"
    by (simp add: latest_def)
  then have "fold at_step (nd # ss) (A @ e # B) = A2 @ e\<lparr>content := latest n (content e) (nd # ss)\<rparr> # B2"
    using s1(1) s2(1) by simp
  then show ?case
    using s1(2) s2(2,3,4) by (intro exI [of _ A2] exI [of _ B2]) simp
qed


subsection \<open>Where the entries come from\<close>

lemma has_origin_mono: "has_origin ss e \<Longrightarrow> has_origin (ss @ [nd]) e"
  unfolding has_origin_def by auto

lemma has_origin_new:
  "keyframes_named m nd \<Longrightarrow> name e = Some m \<Longrightarrow> content e = node_text nd \<Longrightarrow>
   has_origin (ss @ [nd]) e"
  unfolding has_origin_def by auto

lemma names_via_kn:
  "map name (filter (\<lambda>e. keyword e = ''keyframes'') xs)
     = map snd (filter (\<lambda>p. fst p = ''keyframes'') (map (\<lambda>e. (keyword e, name e)) xs))"
  by (induction xs) simp_all

lemma replace_first_names:
  "map name (filter (\<lambda>e. keyword e = ''keyframes'') (replace_first_content m t xs))
     = map name (filter (\<lambda>e. keyword e = ''keyframes'') xs)"
  by (simp only: names_via_kn replace_first_kn)

lemma not_named_not_in_names:
  "\<not> list_ex (is_keyframe_named m) xs \<Longrightarrow>
   Some m \<notin> set (map name (filter (\<lambda>e. keyword e = ''keyframes'') xs))"
  by (auto simp: list_ex_iff is_keyframe_named_def)

lemma entries_ok_step:
  assumes "entries_ok ss ars"
  shows "entries_ok (ss @ [nd]) (at_step nd ars)"
proof -
  have old: "has_origin (ss @ [nd]) e" if "e \<in> set ars" "keyword e = ''keyframes''" for e
    using assms that has_origin_mono unfolding entries_ok_def by blast
  have dist: "distinct (map name (filter (\<lambda>e. keyword e = ''keyframes'') ars))"
    using assms unfolding entries_ok_def by blast
  show ?thesis
  proof (cases "\<exists>m. keyframes_named m nd")
    case False
    then obtain xs where xs: "at_step nd ars = ars @ xs" "\<forall>x \<in> set xs. keyword x \<noteq> ''keyframes''"
      using at_step_not_keyframes by blast
    have f: "filter (\<lambda>e. keyword e = ''keyframes'') xs = []"
      using xs(2) by (simp add: filter_empty_conv)
    have d: "distinct (map name (filter (\<lambda>e. keyword e = ''keyframes'') (at_step nd ars)))"
      unfolding xs(1) using dist by (simp add: f)
    have o: "has_origin (ss @ [nd]) e" if "e \<in> set (at_step nd ars)" "keyword e = ''keyframes''" for e
      using that old xs by auto
    show ?thesis
      unfolding entries_ok_def using d o by blast
  next
    case True
    then obtain m where m: "keyframes_named m nd" by blast
    note step = at_step_keyframes [OF m, of ars]
    show ?thesis
    proof (cases "list_ex (is_keyframe_named m) ars")
      case False
      then have st: "at_step nd ars =
          ars @ [\<lparr>keyword = ''keyframes'', name = Some m, content = node_text nd\<rparr>]"
        using step by simp
      have d: "distinct (map name (filter (\<lambda>e. keyword e = ''keyframes'') (at_step nd ars)))"
        using dist not_named_not_in_names [OF False] unfolding st by simp
      have new: "has_origin (ss @ [nd]) \<lparr>keyword = ''keyframes'', name = Some m, content = node_text nd\<rparr>"
        by (rule has_origin_new [OF m]) simp_all
      have o: "has_origin (ss @ [nd]) e" if "e \<in> set (at_step nd ars)" "keyword e = ''keyframes''" for e
        using that old new unfolding st by auto
      show ?thesis
        unfolding entries_ok_def using d o by blast
    next
      case True
      then have st: "at_step nd ars = replace_first_content m (node_text nd) ars"
        using step by simp
      have d: "distinct (map name (filter (\<lambda>e. keyword e = ''keyframes'') (at_step nd ars)))"
        using dist unfolding st by (simp only: replace_first_names)
      have o: "has_origin (ss @ [nd]) e'"
        if "e' \<in> set (at_step nd ars)" "keyword e' = ''keyframes''" for e'
      proof -
        from that(1) consider "e' \<in> set ars"
          | e where "e \<in> set ars" "is_keyframe_named m e" "e' = e\<lparr>content := node_text nd\<rparr>"
          unfolding st using replace_first_set by blast
        then show ?thesis
        proof cases
          case 1
          then show ?thesis using old that(2) by blast
        next
          case 2
          then have "name e' = Some m" "content e' = node_text nd"
            by (simp_all add: is_keyframe_named_def)
          then show ?thesis
            using has_origin_new [OF m] by blast
        qed
      qed
      show ?thesis
        unfolding entries_ok_def using d o by blast
    qed
  qed
qed

lemma entries_ok_fold: "entries_ok ss (fold at_step ss [])"
proof (induction ss rule: rev_induct)
  case Nil
  show ?case by (simp add: entries_ok_def)
next
  case (snoc nd ss)
  show ?case
    using entries_ok_step [OF snoc.IH, of nd] by simp
qed

lemma entries_ok_named:
  "entries_ok ss ars \<Longrightarrow> list_ex (is_keyframe_named n) ars \<Longrightarrow> list_ex (keyframes_named n) ss"
  unfolding entries_ok_def list_ex_iff is_keyframe_named_def has_origin_def by fastforce

subsection \<open>The pass of the output stage\<close>

lemma dedupe_identity:
  "distinct (eff_names xs) \<Longrightarrow> \<forall>nm \<in> set (eff_names xs). seen nm = None \<Longrightarrow>
   snd (fold dedupe_step xs (seen, acc)) = acc @ xs"
proof (induction xs arbitrary: seen acc)
  case Nil
  then show ?case by simp
next
  case (Cons e es)
  show ?case
  proof (cases "keyword e = ''keyframes'' \<and> effective_name e \<noteq> []")
    case False
    then have st: "dedupe_step e (seen, acc) = (seen, acc @ [e])"
      by (auto simp: dedupe_step_def Let_def)
    have en: "eff_names (e # es) = eff_names es"
      using False by (auto simp: eff_names_def)
    show ?thesis
      using Cons.IH [of seen "acc @ [e]"] Cons.prems unfolding en by (simp add: st)
  next
    case True
    have en: "eff_names (e # es) = effective_name e # eff_names es"
      using True by (simp add: eff_names_def)
    have none: "seen (effective_name e) = None"
      using Cons.prems(2) unfolding en by simp
    have st: "dedupe_step e (seen, acc) = (seen(effective_name e \<mapsto> length acc), acc @ [e])"
      using True none by (simp add: dedupe_step_def Let_def)
    have d: "distinct (eff_names es)" and notin: "effective_name e \<notin> set (eff_names es)"
      using Cons.prems(1) unfolding en by simp_all
    have free: "\<forall>nm \<in> set (eff_names es). (seen(effective_name e \<mapsto> length acc)) nm = None"
      using Cons.prems(2) notin unfolding en by auto
    have step: "fold dedupe_step (e # es) (seen, acc)
                  = fold dedupe_step es (seen(effective_name e \<mapsto> length acc), acc @ [e])"
      by (simp only: fold_simps st comp_apply)
    have ih: "snd (fold dedupe_step es (seen(effective_name e \<mapsto> length acc), acc @ [e]))
                = (acc @ [e]) @ es"
      by (rule Cons.IH [OF d free])
    show ?thesis
      unfolding step ih by simp
  qed
qed

lemma deduplicated_identity:
  "distinct (eff_names xs) \<Longrightarrow> deduplicated_at_rules xs = xs"
  using dedupe_identity [of xs Map.empty "[]"] by (simp add: deduplicated_at_rules_def)


subsection \<open>Distinct names in the output stage\<close>

lemma clash_freeD:
  "fallback_clash_free ss \<Longrightarrow> nd \<in> set ss \<Longrightarrow> keyframes_named [] nd \<Longrightarrow>
   keyframes_name_match (node_text nd) = Some d \<Longrightarrow> \<not> list_ex (keyframes_named d) ss"
  unfolding fallback_clash_free_def list_all_iff by fastforce

lemma clash_free_prefix: "fallback_clash_free (xs @ ys) \<Longrightarrow> fallback_clash_free xs"
  unfolding fallback_clash_free_def list_all_iff list_ex_iff
  by (auto split: option.splits)

lemma effective_name_real: "name e = Some nm \<Longrightarrow> nm \<noteq> [] \<Longrightarrow> effective_name e = nm"
  by (simp add: effective_name_def)

lemma effective_name_blank:
  assumes "name e = Some []" "effective_name e \<noteq> []"
  shows "keyframes_name_match (content e) = Some (effective_name e)"
proof (cases "keyframes_name_match (content e)")
  case None
  then have "effective_name e = []"
    using assms(1) by (simp add: effective_name_def)
  then show ?thesis using assms(2) by simp
next
  case (Some d)
  then have "effective_name e = d"
    using assms(1) by (simp add: effective_name_def)
  then show ?thesis using Some by simp
qed

lemma blank_real_differ:
  assumes cf: "fallback_clash_free ss"
    and a: "name a = Some []" "da \<in> set ss" "keyframes_named [] da" "node_text da = content a"
      "effective_name a \<noteq> []"
    and b: "name b = Some nb" "nb \<noteq> []" "db \<in> set ss" "keyframes_named nb db"
  shows "effective_name a \<noteq> effective_name b"
proof
  assume eq: "effective_name a = effective_name b"
  have "keyframes_name_match (content a) = Some (effective_name a)"
    by (rule effective_name_blank [OF a(1) a(5)])
  then have m: "keyframes_name_match (node_text da) = Some (effective_name a)"
    by (simp only: a(4))
  have free: "\<not> list_ex (keyframes_named (effective_name a)) ss"
    by (rule clash_freeD [OF cf a(2) a(3) m])
  have "effective_name b = nb"
    by (rule effective_name_real [OF b(1) b(2)])
  then have an: "effective_name a = nb"
    by (simp only: eq)
  have "\<not> list_ex (keyframes_named nb) ss"
    using free unfolding an .
  then show False
    using b(3) b(4) unfolding list_ex_iff by blast
qed

lemma same_effective_same_name:
  assumes cf: "fallback_clash_free ss"
    and o1: "has_origin ss e1" and o2: "has_origin ss e2"
    and ne: "effective_name e1 \<noteq> []" and eq: "effective_name e1 = effective_name e2"
  shows "name e1 = name e2"
proof -
  obtain n1 d1 where 1: "name e1 = Some n1" "d1 \<in> set ss" "keyframes_named n1 d1"
    "node_text d1 = content e1"
    using o1 unfolding has_origin_def by blast
  obtain n2 d2 where 2: "name e2 = Some n2" "d2 \<in> set ss" "keyframes_named n2 d2"
    "node_text d2 = content e2"
    using o2 unfolding has_origin_def by blast
  have ne2: "effective_name e2 \<noteq> []"
    using ne by (simp only: eq [symmetric] not_False_eq_True)
  show ?thesis
  proof (cases "n1 = []")
    case b1: True
    show ?thesis
    proof (cases "n2 = []")
      case True
      show ?thesis
        by (simp only: 1(1) 2(1) b1 True)
    next
      case False
      have "effective_name e1 \<noteq> effective_name e2"
        by (rule blank_real_differ [OF cf 1(1) [unfolded b1] 1(2) 1(3) [unfolded b1] 1(4) ne
              2(1) False 2(2) 2(3)])
      then show ?thesis
        using eq by blast
    qed
  next
    case r1: False
    show ?thesis
    proof (cases "n2 = []")
      case True
      have "effective_name e2 \<noteq> effective_name e1"
        by (rule blank_real_differ [OF cf 2(1) [unfolded True] 2(2) 2(3) [unfolded True] 2(4) ne2
              1(1) r1 1(2) 1(3)])
      then show ?thesis
        using eq [symmetric] by blast
    next
      case False
      have f1: "effective_name e1 = n1"
        by (rule effective_name_real [OF 1(1) r1])
      have f2: "effective_name e2 = n2"
        by (rule effective_name_real [OF 2(1) False])
      have "n1 = n2"
        using eq unfolding f1 f2 .
      then show ?thesis
        by (simp only: 1(1) 2(1))
    qed
  qed
qed

lemma eff_names_distinct:
  assumes "fallback_clash_free ss" "entries_ok ss ars"
  shows "distinct (eff_names ars)"
proof -
  let ?K = "filter (\<lambda>e. keyword e = ''keyframes'') ars"
  let ?P = "filter (\<lambda>e. keyword e = ''keyframes'' \<and> effective_name e \<noteq> []) ars"
  have dn: "distinct (map name ?K)"
    using assms(2) unfolding entries_ok_def by blast
  then have dK: "distinct ?K" and inj: "inj_on name (set ?K)"
    by (simp_all add: distinct_map)
  have P: "filter (\<lambda>e. effective_name e \<noteq> []) ?K = ?P"
    by (simp only: filter_filter)
  have "distinct (filter (\<lambda>e. effective_name e \<noteq> []) ?K)"
    using dK by (rule distinct_filter)
  then have dP: "distinct ?P"
    by (simp only: P)
  have "inj_on effective_name (set ?P)"
  proof (rule inj_onI)
    fix a b
    assume a: "a \<in> set ?P" and b: "b \<in> set ?P" and eq: "effective_name a = effective_name b"
    have oa: "has_origin ss a" and ob: "has_origin ss b"
      using a b assms(2) unfolding entries_ok_def by auto
    have nea: "effective_name a \<noteq> []"
      using a by simp
    have nm: "name a = name b"
      by (rule same_effective_same_name [OF assms(1) oa ob nea eq])
    have "a \<in> set ?K" "b \<in> set ?K"
      using a b by simp_all
    then show "a = b"
      using inj nm unfolding inj_on_def by blast
  qed
  then show ?thesis
    unfolding eff_names_def using dP by (simp add: distinct_map)
qed

lemma emitted_is_stored:
  "fallback_clash_free ss \<Longrightarrow> emitted_at_rules ss = fold at_step ss []"
  using eff_names_distinct [OF _ entries_ok_fold [of ss]]
  by (simp add: emitted_at_rules_def process_stylesheet_at_rules init_compiler_def
      deduplicated_identity)

subsection \<open>Deduplication of keyframes\<close>

text \<open>
  Claim C4, as amended. Take a stylesheet in which \<open>first\<close> is the first top-level
  \<^verbatim>\<open>@keyframes\<close> at-rule with the name \<open>n\<close>, and in which no name derived from the text
  of a nameless \<^verbatim>\<open>@keyframes\<close> is the name of a \<^verbatim>\<open>@keyframes\<close>. Then the at-rule section
  has exactly one entry for \<open>n\<close>; it stands at the index that the first occurrence
  gets, which is the number of entries written for the nodes before it; and its
  content is the text of the last top-level \<^verbatim>\<open>@keyframes\<close> with the name \<open>n\<close>.
\<close>

theorem keyframes_deduplicated:
  assumes "keyframes_named n first" "\<not> list_ex (keyframes_named n) before"
    "fallback_clash_free (before @ first # rest)"
  shows "length (emitted_at_rules before) < length (emitted_at_rules (before @ first # rest)) \<and>
         emitted_at_rules (before @ first # rest) ! length (emitted_at_rules before)
           = \<lparr>keyword = ''keyframes'', name = Some n,
               content = node_text (last (filter (keyframes_named n) (first # rest)))\<rparr> \<and>
         filter (is_keyframe_named n) (emitted_at_rules (before @ first # rest))
           = [\<lparr>keyword = ''keyframes'', name = Some n,
                content = node_text (last (filter (keyframes_named n) (first # rest)))\<rparr>]"
proof -
  let ?A = "fold at_step before []"
  let ?e = "\<lparr>keyword = ''keyframes'', name = Some n, content = node_text first\<rparr>"
  let ?final = "\<lparr>keyword = ''keyframes'', name = Some n,
                  content = node_text (last (filter (keyframes_named n) (first # rest)))\<rparr>"
  have eb: "emitted_at_rules before = ?A"
    using emitted_is_stored [OF clash_free_prefix [OF assms(3)]] .
  have ea: "emitted_at_rules (before @ first # rest) = fold at_step rest (at_step first ?A)"
    using emitted_is_stored [OF assms(3)] by simp
  have noA: "\<not> list_ex (is_keyframe_named n) ?A"
    using entries_ok_named [OF entries_ok_fold [of before]] assms(2) by blast
  have first: "at_step first ?A = ?A @ ?e # []"
    using at_step_keyframes [OF assms(1), of ?A] noA by simp
  have ne: "is_keyframe_named n ?e"
    by (simp add: is_keyframe_named_def)
  obtain A' B' where fin: "fold at_step rest (?A @ ?e # []) = A' @ ?e\<lparr>content := latest n (content ?e) rest\<rparr> # B'"
    "length A' = length ?A" "\<not> list_ex (is_keyframe_named n) A'" "\<not> list_ex (is_keyframe_named n) B'"
    using entry_stays [OF noA _ ne, of "[]" rest] by auto
  have c: "?e\<lparr>content := latest n (content ?e) rest\<rparr> = ?final"
    using assms(1) by (simp add: latest_last)
  have out: "emitted_at_rules (before @ first # rest) = A' @ ?final # B'"
    using ea first fin(1) c by simp
  have fA: "filter (is_keyframe_named n) A' = []" and fB: "filter (is_keyframe_named n) B' = []"
    using fin(3,4) by (simp_all add: filter_empty_conv list_ex_iff)
  have nf: "is_keyframe_named n ?final"
    by (simp add: is_keyframe_named_def)
  show ?thesis
    unfolding out eb using fin(2) fA fB nf
    by (simp add: nth_append)
qed

theorem keyframes_deduplicated_witness:
  "length (emitted_at_rules
      [AtRule ''import'' '' url(a.css)'' [] ''@import url(a.css);'',
       AtRule ''keyframes'' '' '' [] ''@keyframes { }''])
     < length (emitted_at_rules
      ([AtRule ''import'' '' url(a.css)'' [] ''@import url(a.css);'',
        AtRule ''keyframes'' '' '' [] ''@keyframes { }''] @
       AtRule ''keyframes'' '' fade '' [] ''@keyframes fade { from { opacity: 0 } }'' #
       [AtRule ''charset'' '' x'' [] ''@charset x;'',
        AtRule ''keyframes'' ''fade '' [] ''@keyframes fade { from { opacity: 1 } }''])) \<and>
   emitted_at_rules
      ([AtRule ''import'' '' url(a.css)'' [] ''@import url(a.css);'',
        AtRule ''keyframes'' '' '' [] ''@keyframes { }''] @
       AtRule ''keyframes'' '' fade '' [] ''@keyframes fade { from { opacity: 0 } }'' #
       [AtRule ''charset'' '' x'' [] ''@charset x;'',
        AtRule ''keyframes'' ''fade '' [] ''@keyframes fade { from { opacity: 1 } }''])
     ! length (emitted_at_rules
      [AtRule ''import'' '' url(a.css)'' [] ''@import url(a.css);'',
       AtRule ''keyframes'' '' '' [] ''@keyframes { }''])
     = \<lparr>keyword = ''keyframes'', name = Some ''fade'',
         content = node_text (last (filter (keyframes_named ''fade'')
           (AtRule ''keyframes'' '' fade '' [] ''@keyframes fade { from { opacity: 0 } }'' #
            [AtRule ''charset'' '' x'' [] ''@charset x;'',
             AtRule ''keyframes'' ''fade '' [] ''@keyframes fade { from { opacity: 1 } }''])))\<rparr> \<and>
   filter (is_keyframe_named ''fade'')
     (emitted_at_rules
      ([AtRule ''import'' '' url(a.css)'' [] ''@import url(a.css);'',
        AtRule ''keyframes'' '' '' [] ''@keyframes { }''] @
       AtRule ''keyframes'' '' fade '' [] ''@keyframes fade { from { opacity: 0 } }'' #
       [AtRule ''charset'' '' x'' [] ''@charset x;'',
        AtRule ''keyframes'' ''fade '' [] ''@keyframes fade { from { opacity: 1 } }'']))
     = [\<lparr>keyword = ''keyframes'', name = Some ''fade'',
          content = node_text (last (filter (keyframes_named ''fade'')
           (AtRule ''keyframes'' '' fade '' [] ''@keyframes fade { from { opacity: 0 } }'' #
            [AtRule ''charset'' '' x'' [] ''@charset x;'',
             AtRule ''keyframes'' ''fade '' [] ''@keyframes fade { from { opacity: 1 } }''])))\<rparr>]"
proof -
  have h1: "keyframes_named ''fade''
              (AtRule ''keyframes'' '' fade '' [] ''@keyframes fade { from { opacity: 0 } }'')"
    by code_simp
  have h2: "\<not> list_ex (keyframes_named ''fade'')
              [AtRule ''import'' '' url(a.css)'' [] ''@import url(a.css);'',
               AtRule ''keyframes'' '' '' [] ''@keyframes { }'']"
    by code_simp
  have h3: "fallback_clash_free
      ([AtRule ''import'' '' url(a.css)'' [] ''@import url(a.css);'',
        AtRule ''keyframes'' '' '' [] ''@keyframes { }''] @
       AtRule ''keyframes'' '' fade '' [] ''@keyframes fade { from { opacity: 0 } }'' #
       [AtRule ''charset'' '' x'' [] ''@charset x;'',
        AtRule ''keyframes'' ''fade '' [] ''@keyframes fade { from { opacity: 1 } }''])"
    by code_simp
  show ?thesis
    by (rule keyframes_deduplicated [OF h1 h2 h3])
qed

text \<open>
  The claim as stated fails for \<^verbatim>\<open>@keyframes\<close> at-rules inside a \<^verbatim>\<open>@media\<close> block, which
  are discarded: with two of the same name there, the at-rule section has no entry
  for the name, and nothing but the banner is generated.
\<close>

theorem nested_keyframes_not_emitted:
  "emitted_at_rules
     [AtRule ''media'' '' screen '' 
        [AtRule ''keyframes'' '' fade '' [] ''@keyframes fade { from { opacity: 0 } }'',
         AtRule ''keyframes'' '' fade '' [] ''@keyframes fade { from { opacity: 1 } }'']
        ''@media screen { @keyframes fade { from { opacity: 0 } } @keyframes fade { from { opacity: 1 } } }'']
     = []
   \<and> compile False True
     [AtRule ''media'' '' screen '' 
        [AtRule ''keyframes'' '' fade '' [] ''@keyframes fade { from { opacity: 0 } }'',
         AtRule ''keyframes'' '' fade '' [] ''@keyframes fade { from { opacity: 1 } }'']
        ''@media screen { @keyframes fade { from { opacity: 0 } } @keyframes fade { from { opacity: 1 } } }'']
     = banner"
  by code_simp


section \<open>The last declaration wins\<close>

subsection \<open>Dictionaries as maps\<close>

lemma od_get_od_set: "od_get (od_set k v d) k' = (if k' = k then Some v else od_get d k')"
  by (simp add: od_get_def od_set_def update_conv')

lemma od_get_od_modify:
  "od_get (od_modify k f d) k' = (if k' = k then map_option f (od_get d k) else od_get d k')"
  unfolding od_get_def od_modify_def by (induction d) auto

lemma od_has_od_get: "od_has d k = (od_get d k \<noteq> None)"
  unfolding od_has_def od_get_def by (simp add: map_of_eq_None_iff)

lemma map_of_rev_distinct: "distinct (map fst xs) \<Longrightarrow> map_of (rev xs) = map_of xs"
proof (induction xs)
  case Nil
  show ?case by simp
next
  case (Cons x xs)
  have "fst x \<notin> dom (map_of xs)"
    using Cons.prems by (simp add: dom_map_of_conv_image_fst)
  then have "map_of [x] ++ map_of xs = (map_of xs)(fst x \<mapsto> snd x)"
    by (cases x) (auto simp: map_add_def fun_eq_iff split: option.splits)
  then show ?case
    using Cons by (cases x) simp
qed

subsection \<open>Texts without an empty comment\<close>

lemma replace_from_absent: "\<not> contains s old \<Longrightarrow> replace_from 0 old new s = s"
  by (induction s) simp_all

lemma serialize_tokens_plain: "\<not> contains s ''/**/'' \<Longrightarrow> serialize_tokens s = s"
  by (simp add: serialize_tokens_def py_replace_def replace_from_absent)

lemma processed_selectors:
  assumes "\<not> contains prelude ''/**/''" "plain_quotes None False False prelude"
  shows "filter (\<lambda>s. s \<noteq> []) (map py_strip (split_selectors (py_strip (serialize_tokens prelude))))
           = split_spec prelude"
proof -
  have "split_selectors (py_strip prelude) = split_spec (py_strip prelude)"
    by (rule split_selectors_refines [OF plain_quotes_strip [OF assms(2)]])
  then show ?thesis
    by (simp add: serialize_tokens_plain [OF assms(1)] split_spec_strip split_spec_trimmed)
qed

subsection \<open>The block of declarations\<close>

lemma declaration_step_map:
  "map_of (fst (declaration_step d acc)) = map_of (fst acc) ++ map_of (rev (raw_pairs d))"
  by (cases d; cases acc) (simp_all add: od_set_def update_conv' raw_pairs_def)

lemma declaration_step_distinct:
  "distinct (map fst (fst acc)) \<Longrightarrow> distinct (map fst (fst (declaration_step d acc)))"
  by (cases d; cases acc) (simp_all add: od_set_def distinct_update)

lemma declaration_step_keys:
  "fst ` set (fst (declaration_step d acc)) \<subseteq> fst ` set (fst acc) \<union> fst ` set (raw_pairs d)"
  by (cases d; cases acc) (auto simp: od_set_def raw_pairs_def dom_update)

lemma fold_declaration_step_map:
  "map_of (fst (fold declaration_step decls acc))
     = map_of (fst acc) ++ map_of (rev (concat (map raw_pairs decls)))"
proof (induction decls arbitrary: acc)
  case Nil
  show ?case by simp
next
  case (Cons d decls)
  show ?case
    by (simp add: Cons.IH declaration_step_map)
qed

lemma fold_declaration_step_distinct:
  "distinct (map fst (fst acc)) \<Longrightarrow> distinct (map fst (fst (fold declaration_step decls acc)))"
  by (induction decls arbitrary: acc) (simp_all add: declaration_step_distinct)

lemma fold_declaration_step_keys:
  "fst ` set (fst (fold declaration_step decls acc))
     \<subseteq> fst ` set (fst acc) \<union> fst ` set (concat (map raw_pairs decls))"
proof (induction decls arbitrary: acc)
  case Nil
  show ?case by simp
next
  case (Cons d decls)
  have f: "fold declaration_step (d # decls) acc = fold declaration_step decls (declaration_step d acc)"
    by simp
  have u: "fst ` set (concat (map raw_pairs (d # decls)))
             = fst ` set (raw_pairs d) \<union> fst ` set (concat (map raw_pairs decls))"
    by (simp add: image_Un)
  show ?case
    unfolding f u
    using Cons.IH [of "declaration_step d acc"] declaration_step_keys [of d acc]
    by blast
qed

lemma parsed_map:
  "map_of (fst (parse_declaration_block decls st)) = map_of (rev (concat (map raw_pairs decls)))"
  by (simp add: parse_declaration_block_def fold_declaration_step_map)

lemma parsed_distinct: "distinct (map fst (fst (parse_declaration_block decls st)))"
  by (simp add: parse_declaration_block_def fold_declaration_step_distinct)

lemma parsed_keys:
  "fst ` set (fst (parse_declaration_block decls st)) \<subseteq> fst ` set (concat (map raw_pairs decls))"
  using fold_declaration_step_keys [of decls "([], st)"]
  by (simp add: parse_declaration_block_def)

lemma raw_pairs_clean:
  "decl_plain d \<Longrightarrow> (p, v) \<in> set (raw_pairs d) \<Longrightarrow> py_strip p = p"
  by (cases d) (simp_all add: decl_plain_def raw_pairs_def)

lemma clean_names:
  "list_all decl_plain decls \<Longrightarrow> p \<in> fst ` set (concat (map raw_pairs decls)) \<Longrightarrow> py_strip p = p"
  using raw_pairs_clean by (fastforce simp: list_all_iff)

lemma decl_pairs_raw:
  "decl_plain d \<Longrightarrow> decl_pairs d = map (\<lambda>pv. (fst pv, py_strip (snd pv))) (raw_pairs d)"
  by (cases d)
     (simp_all add: decl_pairs_def raw_pairs_def decl_plain_def declaration_value_def
       serialize_tokens_plain)

lemma rule_declarations_raw:
  "list_all decl_plain decls \<Longrightarrow>
   rule_declarations decls = map (\<lambda>pv. (fst pv, py_strip (snd pv))) (concat (map raw_pairs decls))"
  by (induction decls) (simp_all add: rule_declarations_def decl_pairs_raw)

lemma map_of_second:
  "map_of (map (\<lambda>pv. (fst pv, f (snd pv))) xs) = map_option f \<circ> map_of xs"
  by (induction xs) (auto simp: fun_eq_iff)

lemma trimmed_parsed:
  assumes "list_all decl_plain decls"
  shows "map_of (rev (trimmed (fst (parse_declaration_block decls st))))
           = map_of (rev (rule_declarations decls))"
proof -
  let ?D = "fst (parse_declaration_block decls st)"
  let ?raw = "concat (map raw_pairs decls)"
  have "py_strip (fst pv) = fst pv" if "pv \<in> set ?D" for pv
    using that parsed_keys [of decls st] clean_names [OF assms] by blast
  then have t: "trimmed ?D = map (\<lambda>pv. (fst pv, py_strip (snd pv))) ?D"
    by (simp add: trimmed_def)
  have "map_of (rev (trimmed ?D)) = map_option py_strip \<circ> map_of (rev ?D)"
    unfolding t by (simp only: rev_map map_of_second)
  also have "map_of (rev ?D) = map_of ?D"
    by (rule map_of_rev_distinct [OF parsed_distinct])
  also have "map_of ?D = map_of (rev ?raw)"
    by (rule parsed_map)
  also have "map_option py_strip \<circ> map_of (rev ?raw) = map_of (rev (rule_declarations decls))"
    unfolding rule_declarations_raw [OF assms] by (simp only: rev_map map_of_second)
  finally show ?thesis .
qed

subsection \<open>One selector\<close>

lemma property_step_get:
  "od_get (fst (property_step s pv acc)) k =
     (if k = s then map_option (add_property (fst pv) (snd pv)) (od_get (fst acc) s)
      else od_get (fst acc) k)"
  by (simp add: property_step_def od_get_od_modify)

lemma fold_property_step_get:
  "od_get (fst (fold (property_step s) props acc)) k =
     (if k = s
      then map_option (fold (\<lambda>pv. add_property (fst pv) (snd pv)) props) (od_get (fst acc) s)
      else od_get (fst acc) k)"
proof (induction props arbitrary: acc)
  case Nil
  show ?case by (simp add: option.map_ident)
next
  case (Cons pv props)
  show ?case
    by (simp add: Cons.IH property_step_get option.map_comp comp_def)
qed

lemma add_property_get:
  "od_get (properties (add_property p v r)) =
     od_get (properties r) ++ map_of [(py_strip p, py_strip v)]"
  by (auto simp: add_property_def od_get_od_set fun_eq_iff map_add_def)

lemma od_get_map_of: "od_get d = map_of d"
  by (simp add: od_get_def fun_eq_iff)

lemma fold_add_property_get:
  "od_get (properties (fold (\<lambda>pv. add_property (fst pv) (snd pv)) props r))
     = od_get (properties r) ++ map_of (rev (trimmed props))"
proof (induction props arbitrary: r)
  case Nil
  show ?case by (simp add: trimmed_def)
next
  case (Cons pv props)
  have t: "map_of (rev (trimmed (pv # props)))
             = map_of [(py_strip (fst pv), py_strip (snd pv))] ++ map_of (rev (trimmed props))"
    by (simp add: trimmed_def)
  have "od_get (properties (fold (\<lambda>pv. add_property (fst pv) (snd pv)) (pv # props) r))
          = (od_get (properties r) ++ map_of [(py_strip (fst pv), py_strip (snd pv))])
              ++ map_of (rev (trimmed props))"
    by (simp only: fold_simps comp_apply Cons.IH add_property_get)
  then show ?case
    by (simp only: t map_add_assoc)
qed


lemma fold_fold_properties:
  "scope_properties (fst (fold (property_step s) props acc)) k =
     (if k = s \<and> od_get (fst acc) s \<noteq> None
      then scope_properties (fst acc) s ++ map_of (rev (trimmed props))
      else scope_properties (fst acc) k)"
proof (cases "k = s")
  case False
  then show ?thesis
    by (simp add: scope_properties_def fold_property_step_get fun_eq_iff)
next
  case True
  show ?thesis
  proof (cases "od_get (fst acc) s")
    case None
    then show ?thesis
      using True by (simp add: scope_properties_def fold_property_step_get fun_eq_iff)
  next
    case (Some r)
    have "scope_properties (fst (fold (property_step s) props acc)) s
            = od_get (properties (fold (\<lambda>pv. add_property (fst pv) (snd pv)) props r))"
      using Some by (simp add: scope_properties_def fold_property_step_get fun_eq_iff)
    also have "\<dots> = od_get (properties r) ++ map_of (rev (trimmed props))"
      by (rule fold_add_property_get)
    also have "od_get (properties r) = scope_properties (fst acc) s"
      using Some by (simp add: scope_properties_def fun_eq_iff)
    finally show ?thesis
      using True Some by simp
  qed
qed

lemma selector_step_properties:
  "scope_properties (fst (selector_step props sel0 acc)) k =
     (if k = py_strip sel0 \<and> py_strip sel0 \<noteq> []
      then scope_properties (fst acc) k ++ map_of (rev (trimmed props))
      else scope_properties (fst acc) k)"
proof (cases "py_strip sel0 = []")
  case True
  then show ?thesis by (simp add: selector_step_def)
next
  case False
  let ?s = "py_strip sel0"
  let ?target = "if od_has (fst acc) ?s then fst acc else od_set ?s (CSSRule ?s) (fst acc)"
  have present: "od_get ?target ?s \<noteq> None"
    by (simp add: od_has_od_get od_get_od_set)
  have nil: "od_get ([] :: (string \<times> string) list) x = None" for x
    by (simp add: od_get_def)
  have same: "scope_properties ?target k' = scope_properties (fst acc) k'" for k'
    by (auto simp: scope_properties_def od_has_od_get od_get_od_set CSSRule_def nil fun_eq_iff)
  have "fst (selector_step props sel0 acc)
          = fst (fold (property_step ?s) props
                  (?target, (snd acc)\<lparr>stat_selectors_split := stat_selectors_split (snd acc) + 1\<rparr>))"
    using False by (simp add: selector_step_def Let_def)
  then have "scope_properties (fst (selector_step props sel0 acc)) k =
     (if k = ?s \<and> od_get ?target ?s \<noteq> None
      then scope_properties ?target ?s ++ map_of (rev (trimmed props))
      else scope_properties ?target k)"
    by (simp only: fold_fold_properties fst_conv)
  then have "scope_properties (fst (selector_step props sel0 acc)) k =
     (if k = ?s then scope_properties (fst acc) ?s ++ map_of (rev (trimmed props))
      else scope_properties (fst acc) k)"
    using present by (simp only: same) simp
  then show ?thesis
    using False by auto
qed

lemma fold_selector_step_properties:
  "scope_properties (fst (fold (selector_step props) sels acc)) k =
     (if k \<in> set (filter (\<lambda>s. s \<noteq> []) (map py_strip sels))
      then scope_properties (fst acc) k ++ map_of (rev (trimmed props))
      else scope_properties (fst acc) k)"
proof (induction sels arbitrary: acc)
  case Nil
  show ?case by simp
next
  case (Cons sel0 sels)
  have idem: "(m ++ map_of (rev (trimmed props))) ++ map_of (rev (trimmed props))
                = m ++ map_of (rev (trimmed props))" for m :: "string \<Rightarrow> string option"
    by (auto simp: map_add_def fun_eq_iff split: option.splits)
  show ?case
    by (auto simp add: Cons.IH selector_step_properties idem)
qed


subsection \<open>One qualified rule\<close>

lemma split_selectors_Nil: "split_selectors [] = []"
  by (simp add: split_selectors_def split_init_def flush_def)

lemma stored_scope_stats: "stored_scope sc (c\<lparr>stats := st\<rparr>) = stored_scope sc c"
  by (simp add: stored_scope_def split: option.splits)

lemma stored_scope_rules:
  "stored_scope sc (c\<lparr>rules := t, stats := st\<rparr>) = (if sc = None then t else stored_scope sc c)"
  by (simp add: stored_scope_def split: option.splits)

lemma stored_scope_media:
  "stored_scope sc (c\<lparr>media_queries := od_set m t (media_queries c), stats := st\<rparr>)
     = (if sc = Some m then t else stored_scope sc c)"
  by (auto simp: stored_scope_def od_get_od_set split: option.splits)

lemma pqr_scope:
  assumes "py_strip (serialize_tokens prelude) \<noteq> []"
    "fst (parse_declaration_block decls
            ((stats c)\<lparr>stat_rules_parsed := stat_rules_parsed (stats c) + 1\<rparr>)) \<noteq> []"
  shows "\<exists>st. stored_scope sc (process_qualified_rule prelude decls mc c) =
     (if sc = target_scope mc
      then fst (fold (selector_step (fst (parse_declaration_block decls
                  ((stats c)\<lparr>stat_rules_parsed := stat_rules_parsed (stats c) + 1\<rparr>))))
                (split_selectors (py_strip (serialize_tokens prelude))) (stored_scope sc c, st))
      else stored_scope sc c)"
proof (cases mc)
  case None
  then show ?thesis
    using assms
    by (auto simp: process_qualified_rule_def Let_def stored_scope_rules target_scope_def
        stored_scope_def [of None])
next
  case (Some m)
  show ?thesis
  proof (cases "m = []")
    case True
    then show ?thesis
      using assms Some
      by (auto simp: process_qualified_rule_def Let_def stored_scope_rules target_scope_def
          scope_of_condition_def stored_scope_def [of None])
  next
    case False
    then show ?thesis
      using assms Some
      by (auto simp: process_qualified_rule_def Let_def stored_scope_media target_scope_def
          scope_of_condition_def stored_scope_def [of "Some m"])
  qed
qed

lemma pqr_unchanged:
  assumes "py_strip (serialize_tokens prelude) = [] \<or>
    fst (parse_declaration_block decls
            ((stats c)\<lparr>stat_rules_parsed := stat_rules_parsed (stats c) + 1\<rparr>)) = []"
  shows "stored_scope sc (process_qualified_rule prelude decls mc c) = stored_scope sc c"
  using assms
  by (auto simp: process_qualified_rule_def Let_def stored_scope_stats)

lemma stored_properties_alt:
  "stored_properties sc sel c = scope_properties (stored_scope sc c) sel"
  by (rule ext) (simp add: stored_properties_def)

lemma pqr_stored:
  assumes clean: "list_all decl_plain decls"
    and pre: "\<not> contains prelude ''/**/''" "plain_quotes None False False prelude"
  shows "stored_properties sc sel (process_qualified_rule prelude decls mc c) =
     (if sc = target_scope mc \<and> sel \<in> set (split_spec prelude)
      then stored_properties sc sel c ++ map_of (rev (rule_declarations decls))
      else stored_properties sc sel c)"
proof -
  let ?st1 = "(stats c)\<lparr>stat_rules_parsed := stat_rules_parsed (stats c) + 1\<rparr>"
  let ?D = "fst (parse_declaration_block decls ?st1)"
  have M: "map_of (rev (trimmed ?D)) = map_of (rev (rule_declarations decls))"
    by (rule trimmed_parsed [OF clean])
  have S: "filter (\<lambda>s. s \<noteq> [])
             (map py_strip (split_selectors (py_strip (serialize_tokens prelude))))
           = split_spec prelude"
    by (rule processed_selectors [OF pre])
  show ?thesis
  proof (cases "py_strip (serialize_tokens prelude) = []")
    case True
    have "split_spec prelude = []"
      using S by (simp add: True split_selectors_Nil)
    then show ?thesis
      using pqr_unchanged [of prelude decls c sc mc] True
      by (simp add: stored_properties_alt)
  next
    case sel: False
    show ?thesis
    proof (cases "?D = []")
      case True
      have "map_of (rev (rule_declarations decls)) = Map.empty"
        using M True by (simp add: trimmed_def)
      then show ?thesis
        using pqr_unchanged [of prelude decls c sc mc] True
        by (simp add: stored_properties_alt)
    next
      case False
      obtain st where sc: "stored_scope sc (process_qualified_rule prelude decls mc c) =
        (if sc = target_scope mc
         then fst (fold (selector_step ?D) (split_selectors (py_strip (serialize_tokens prelude)))
                 (stored_scope sc c, st))
         else stored_scope sc c)"
        using pqr_scope [OF sel False] by blast
      show ?thesis
      proof (cases "sc = target_scope mc")
        case diff: False
        then show ?thesis
          unfolding stored_properties_alt sc by simp
      next
        case same: True
        have "scope_properties (stored_scope sc (process_qualified_rule prelude decls mc c)) sel
                = scope_properties
                    (fst (fold (selector_step ?D)
                       (split_selectors (py_strip (serialize_tokens prelude)))
                       (stored_scope sc c, st))) sel"
          unfolding sc using same by simp
        also have "\<dots> = (if sel \<in> set (split_spec prelude)
                             then scope_properties (stored_scope sc c) sel
                                    ++ map_of (rev (trimmed ?D))
                             else scope_properties (stored_scope sc c) sel)"
          by (simp only: fold_selector_step_properties fst_conv S)
        also have "\<dots> = (if sel \<in> set (split_spec prelude)
                             then scope_properties (stored_scope sc c) sel
                                    ++ map_of (rev (rule_declarations decls))
                             else scope_properties (stored_scope sc c) sel)"
          by (simp only: M)
        finally show ?thesis
          unfolding stored_properties_alt using same by simp
      qed
    qed
  qed
qed


subsection \<open>The nodes of the stylesheet\<close>

lemma media_child_stored:
  assumes "rule_plain ch" "m \<noteq> []"
  shows "stored_properties sc sel (media_child m ch c) =
     stored_properties sc sel c
       ++ map_of (rev (declared_in (Some m) sc sel (without_content ch)))"
proof (cases ch)
  case (QualifiedRule prelude decls)
  then have h: "list_all decl_plain decls" "\<not> contains prelude ''/**/''"
      "plain_quotes None False False prelude"
    using assms(1) by (simp_all add: rule_plain_def)
  show ?thesis
    using QualifiedRule assms(2)
    by (auto simp: media_child_def pqr_stored [OF h] target_scope_def scope_of_condition_def
        without_content_def)
next
  case (AtRule kw prelude children tx)
  then show ?thesis
    by (simp add: media_child_def without_content_def)
next
  case ParseError
  then show ?thesis
    by (simp add: media_child_def without_content_def)
qed

lemma fold_media_child_stored:
  assumes "list_all rule_plain children" "m \<noteq> []"
  shows "stored_properties sc sel (fold (media_child m) children c) =
     stored_properties sc sel c
       ++ map_of (rev (concat (map (declared_in (Some m) sc sel)
                                 (map without_content children))))"
  using assms(1)
proof (induction children arbitrary: c)
  case Nil
  show ?case by simp
next
  case (Cons ch children)
  have ch: "rule_plain ch" and rest: "list_all rule_plain children"
    using Cons.prems by simp_all
  show ?case
    by (simp add: Cons.IH [OF rest] media_child_stored [OF ch assms(2)] map_add_assoc)
qed

lemma stored_properties_stats:
  "stored_properties sc sel (c\<lparr>stats := st\<rparr>) = stored_properties sc sel c"
  by (simp add: stored_properties_alt stored_scope_stats)

lemma stored_properties_at_rules:
  "stored_properties sc sel (c\<lparr>at_rules := ars\<rparr>) = stored_properties sc sel c"
  by (simp add: stored_properties_alt stored_scope_def split: option.splits)

lemma process_node_stored:
  assumes "node_plain nd"
  shows "stored_properties sc sel (process_node nd c)
           = stored_properties sc sel c
               ++ map_of (rev (declared_in None sc sel (direct_rules_node nd)))"
proof (cases nd)
  case (QualifiedRule prelude decls)
  then have h: "list_all decl_plain decls" "\<not> contains prelude ''/**/''"
      "plain_quotes None False False prelude"
    using assms by (simp_all add: node_plain_def rule_plain_def)
  show ?thesis
    using QualifiedRule
    by (auto simp: process_node_def pqr_stored [OF h] target_scope_def direct_rules_node_def)
next
  case (AtRule kw prelude children tx)
  show ?thesis
  proof (cases "kw = ''media''")
    case True
    have cl: "list_all rule_plain children" and ne: "py_strip prelude \<noteq> []"
      and nc: "\<not> contains prelude ''/**/''"
      using assms AtRule True by (simp_all add: node_plain_def)
    show ?thesis
      using AtRule True
      by (simp add: process_node_def process_at_rule_def Let_def direct_rules_node_def
          serialize_tokens_plain [OF nc] fold_media_child_stored [OF cl ne]
          stored_properties_stats)
  next
    case False
    then show ?thesis
      using AtRule
      by (simp add: process_node_def process_at_rule_def Let_def direct_rules_node_def
          stored_properties_stats stored_properties_at_rules)
  qed
next
  case ParseError
  then show ?thesis
    by (simp add: process_node_def direct_rules_node_def stored_properties_stats)
qed

lemma process_stylesheet_stored:
  assumes "plain_stylesheet ss"
  shows "stored_properties sc sel (process_stylesheet ss c)
           = stored_properties sc sel c ++ map_of (rev (declared sc sel (direct_rules ss)))"
  using assms
proof (induction ss arbitrary: c)
  case Nil
  show ?case by (simp add: process_stylesheet_def declared_def direct_rules_def)
next
  case (Cons nd ss)
  have nd: "node_plain nd" and rest: "plain_stylesheet ss"
    using Cons.prems by (simp_all add: plain_stylesheet_def)
  have "stored_properties sc sel (process_stylesheet (nd # ss) c)
          = (stored_properties sc sel c
               ++ map_of (rev (declared_in None sc sel (direct_rules_node nd))))
              ++ map_of (rev (declared sc sel (direct_rules ss)))"
    using Cons.IH [OF rest, of "process_node nd c"] process_node_stored [OF nd, of sc sel c]
    by (simp add: process_stylesheet_def)
  then show ?case
    by (simp add: declared_def direct_rules_def map_add_assoc)
qed

lemma init_stored: "stored_properties sc sel init_compiler = Map.empty"
  by (rule ext)
     (simp add: stored_properties_def stored_scope_def init_compiler_def scope_properties_def
       od_get_def split: option.splits)

text \<open>
  Claim C1, as amended. Take a stylesheet in which, for the rules at the top level
  and the rules directly inside a top-level \<^verbatim>\<open>@media\<close> block, the property names
  have no whitespace at their ends, no prelude and no value contains \<^verbatim>\<open>/**/\<close>, no
  quote that opens or closes a string literal of a prelude stands right after an
  escaped backslash, and no \<^verbatim>\<open>@media\<close> condition is empty.
  For every scope, the top level or a media condition, and every individual
  selector, the rule stored for the pair after the whole stylesheet is processed
  maps each property to the value of the last declaration of that property under
  that selector in that scope, counting the declarations of the rules at the top
  level and of the rules directly inside a top-level \<^verbatim>\<open>@media\<close> block, and it has
  no other property: there is no rule, or a rule without that property, exactly
  when there is no such declaration. The rules inside any other at-rule, and inside
  an at-rule within a \<^verbatim>\<open>@media\<close> block, are not stored.
\<close>

theorem last_declaration_wins:
  assumes "plain_stylesheet ss"
  shows "stored_properties sc sel (process_stylesheet ss init_compiler) prop
           = last_declared (declared sc sel (direct_rules ss)) prop"
  using process_stylesheet_stored [OF assms, of sc sel init_compiler]
  by (simp add: init_stored last_declared_def)

theorem last_declaration_wins_witness:
  "plain_stylesheet sample_sheet
   \<and> stored_properties None ''a'' (process_stylesheet sample_sheet init_compiler) ''color''
     = last_declared (declared None ''a'' (direct_rules sample_sheet)) ''color''"
proof -
  have h: "plain_stylesheet sample_sheet"
    by code_simp
  show ?thesis
    by (rule conjI [OF h last_declaration_wins [OF h]])
qed

lemma last_declaration_example:
  "stored_properties None ''a'' (process_stylesheet sample_sheet init_compiler) ''color''
     = Some ''blue''"
  "stored_properties None ''a'' (process_stylesheet sample_sheet init_compiler) ''margin''
     = Some ''1px''"
  "stored_properties None (''.md'' @ [CHR 0x5C] @ '':b'')
     (process_stylesheet sample_sheet init_compiler) ''margin'' = Some ''0''"
  "stored_properties (Some ''(max-width: 600px)'') ''a''
     (process_stylesheet sample_sheet init_compiler) ''color'' = Some ''green !important''"
  "last_declared (declared (Some ''(max-width: 600px)'') ''a'' (direct_rules sample_sheet))
     ''color'' = Some ''green !important''"
  "last_declared (declared (Some ''(max-width: 600px)'') ''a'' sample_sheet) ''color''
     = Some ''black''"
  by code_simp+

text \<open>
  The claim as stated fails. The declaration of a rule inside \<^verbatim>\<open>@supports\<close> inside
  \<^verbatim>\<open>@media screen\<close> stands under the selector \<^verbatim>\<open>a\<close> in the scope of the condition,
  and nothing is stored for it, in that scope or elsewhere. And a property name
  with whitespace at an end, which an escape can produce, is stored trimmed, so
  the rule has no entry for the name itself.
\<close>

theorem nested_rule_not_stored:
  "last_declared (declared (Some ''screen'') ''a'' nested_sheet) ''color'' = Some ''red''
   \<and> stored_properties (Some ''screen'') ''a''
       (process_stylesheet nested_sheet init_compiler) ''color'' = None
   \<and> rules (process_stylesheet nested_sheet init_compiler) = []
   \<and> media_queries (process_stylesheet nested_sheet init_compiler) = []
   \<and> at_rules (process_stylesheet nested_sheet init_compiler) = []
   \<and> last_declared
       (declared None ''a'' [QualifiedRule ''a '' [Declaration ''x '' '' 1'' False]]) ''x ''
       = Some ''1''
   \<and> stored_properties None ''a''
       (process_stylesheet [QualifiedRule ''a '' [Declaration ''x '' '' 1'' False]] init_compiler)
       ''x '' = None
   \<and> stored_properties None ''a''
       (process_stylesheet [QualifiedRule ''a '' [Declaration ''x '' '' 1'' False]] init_compiler)
       ''x'' = Some ''1''"
  by code_simp

text \<open>
  The other three conditions on the stylesheet are needed as well. A rule inside
  a \<^verbatim>\<open>@media\<close> block with an empty condition is stored at the top level; the value
  \<^verbatim>\<open>"/**/"\<close>, a string, is stored as \<^verbatim>\<open>""\<close>; and the declaration of a rule with the
  prelude \<^verbatim>\<open>[x="a\\"], [y="b],c"]\<close> is not stored under its second selector.
\<close>

lemma last_declaration_outside:
  "last_declared
     (declared (Some []) ''a''
        [AtRule ''media'' '' '' [QualifiedRule ''a '' [Declaration ''color'' '' red'' False]]
           ''@media { a { color: red } }'']) ''color'' = Some ''red''"
  "stored_properties (Some []) ''a''
     (process_stylesheet
        [AtRule ''media'' '' '' [QualifiedRule ''a '' [Declaration ''color'' '' red'' False]]
           ''@media { a { color: red } }'']
        init_compiler) ''color'' = None"
  "stored_properties None ''a''
     (process_stylesheet
        [AtRule ''media'' '' '' [QualifiedRule ''a '' [Declaration ''color'' '' red'' False]]
           ''@media { a { color: red } }'']
        init_compiler) ''color'' = Some ''red''"
  "last_declared
     (declared None ''a''
        [QualifiedRule ''a ''
           [Declaration ''content'' ([CHR 0x20, CHR 0x22] @ ''/**/'' @ [CHR 0x22]) False]])
     ''content'' = Some ([CHR 0x22] @ ''/**/'' @ [CHR 0x22])"
  "stored_properties None ''a''
     (process_stylesheet
        [QualifiedRule ''a ''
           [Declaration ''content'' ([CHR 0x20, CHR 0x22] @ ''/**/'' @ [CHR 0x22]) False]]
        init_compiler) ''content'' = Some [CHR 0x22, CHR 0x22]"
  "last_declared
     (declared None (''[y='' @ [CHR 0x22] @ ''b],c'' @ [CHR 0x22] @ '']'')
        [QualifiedRule escaped_backslash_clause [Declaration ''color'' '' red'' False]])
     ''color'' = Some ''red''"
  "stored_properties None (''[y='' @ [CHR 0x22] @ ''b],c'' @ [CHR 0x22] @ '']'')
     (process_stylesheet
        [QualifiedRule escaped_backslash_clause [Declaration ''color'' '' red'' False]]
        init_compiler) ''color'' = None"
  by code_simp+


end
